theory Spec2Isabelle
  imports Complex_Main
begin

section \<open>Exceptions and Python list primitives\<close>

text \<open>
  The module \<^verbatim>\<open>timely.py\<close> raises \<^verbatim>\<open>TimelyError\<close> (with a message) for its own
  failures; \<^verbatim>\<open>list.index\<close> raises \<^verbatim>\<open>ValueError\<close>, \<^verbatim>\<open>list[i]\<close> raises
  \<^verbatim>\<open>IndexError\<close>, \<^verbatim>\<open>float(n)\<close> raises \<^verbatim>\<open>OverflowError\<close> for an integer that is too
  large, and a few methods raise \<^verbatim>\<open>NotImplementedError\<close>. Every raise of the source is
  the value \<open>Inl e\<close> of the result type \<open>error + 'a\<close>.

  All time values are modelled for integer slot values (the source's \<^verbatim>\<open>decimals = False\<close>
  case). The source keeps the slots in numpy arrays of 64-bit integers, whose arithmetic
  wraps around. The slots are modelled as \<open>int\<close>; the constructor refuses a list with a
  value outside the 64-bit range (\<open>int64\<close> below), and the arithmetic of the model agrees
  with the source as long as no year, day count or other intermediate value leaves this
  range. Every property proved below about dates of an arbitrary year states the bounds on
  the year under which this is so.
\<close>

datatype error =
    TimelyError string
  | ValueError
  | IndexError
  | OverflowError
  | NotImplementedError string

definition ebind :: "error + 'a \<Rightarrow> ('a \<Rightarrow> error + 'b) \<Rightarrow> error + 'b" where
  "ebind m f = (case m of Inl e \<Rightarrow> Inl e | Inr v \<Rightarrow> f v)"

text \<open>\<^verbatim>\<open>some_list[item]\<close>: a negative index counts from the end.\<close>

definition py_get :: "'a list \<Rightarrow> int \<Rightarrow> error + 'a" where
  "py_get xs i =
     (if 0 \<le> i \<and> i < int (length xs) then Inr (xs ! nat i)
      else if i < 0 \<and> - int (length xs) \<le> i then Inr (xs ! nat (int (length xs) + i))
      else Inl IndexError)"

text \<open>\<^verbatim>\<open>some_list.index(value)\<close>: position of the first occurrence.\<close>

fun py_index :: "int list \<Rightarrow> int \<Rightarrow> error + int" where
  "py_index [] v = Inl ValueError"
| "py_index (x # xs) v =
     (if x = v then Inr 0
      else (case py_index xs v of Inl e \<Rightarrow> Inl e | Inr i \<Rightarrow> Inr (i + 1)))"

section \<open>Built-in functions for calendar definition\<close>

subsection \<open>Cycles in year\<close>

text \<open>The dictionaries returned by the \<^verbatim>\<open>year_cycles\<close> functions, as association lists.\<close>

definition months_of_gregorian_calendar :: "int \<Rightarrow> (int \<times> string) list" where
  "months_of_gregorian_calendar yr =
     [(1, ''January''), (2, ''February''), (3, ''March''), (4, ''April''), (5, ''May''),
      (6, ''June''), (7, ''July''), (8, ''August''), (9, ''September''), (10, ''October''),
      (11, ''November''), (12, ''December'')]"

definition temperate_seasons :: "int \<Rightarrow> (int \<times> string) list" where
  "temperate_seasons yr = [(1, ''Spring''), (2, ''Summer''), (3, ''Autumn''), (4, ''Winter'')]"

definition year_cycle :: "int \<Rightarrow> (int \<times> string) list" where
  "year_cycle yr = [(1, ''Year'')]"

subsection \<open>Integer checks\<close>

text \<open>
  The calendar functions check a month or a year \<open>v\<close> by
  \<^verbatim>\<open>v_float = float(v); v_int = int(v)\<close> followed by \<^verbatim>\<open>if v_int != v_float: raise\<close>.
  For an integer \<open>v\<close> the conversion to a 64-bit float rounds to the nearest float and
  raises \<^verbatim>\<open>OverflowError\<close> (which the \<^verbatim>\<open>except (TypeError, ValueError)\<close> clause does not
  catch) when the rounded value would be \<open>2 ^ 1024\<close>, that is from \<open>2 ^ 1024 - 2 ^ 970\<close>
  on. Python compares an integer with a float exactly, so the test fails exactly when \<open>v\<close>
  is not itself a float: a float with an integer value is \<open>m * 2 ^ e\<close> with
  \<open>\<bar>m\<bar> < 2 ^ 53\<close> and \<open>e \<le> 971\<close>. The first integer that is not a float is
  \<open>2 ^ 53 + 1\<close>. The "not numerical" branch is for arguments that are not numbers and is
  not taken for an integer.
\<close>

definition float_overflows :: "int \<Rightarrow> bool" where
  "float_overflows v \<longleftrightarrow> 2 ^ 1024 - 2 ^ 970 \<le> \<bar>v\<bar>"

definition is_float64 :: "int \<Rightarrow> bool" where
  "is_float64 v \<longleftrightarrow> list_ex (\<lambda>e. 2 ^ e dvd v \<and> \<bar>v\<bar> < 2 ^ (e + 53)) [0..<972]"

definition float_int :: "string \<Rightarrow> int \<Rightarrow> error + int" where
  "float_int what v =
     (if float_overflows v then Inl OverflowError
      else if \<not> is_float64 v then Inl (TimelyError (what @ '' value is not an integer.''))
      else Inr v)"

subsection \<open>Days in cycle\<close>

text \<open>\<^verbatim>\<open>range(1, n + 1)\<close> is the list \<open>[1..n]\<close>.\<close>

definition days_in_month_360 :: "int \<Rightarrow> int \<Rightarrow> error + int list" where
  "days_in_month_360 month yr = Inr [1..30]"

definition days_in_month_365 :: "int \<Rightarrow> int \<Rightarrow> error + int list" where
  "days_in_month_365 month yr =
     ebind (float_int ''Month'' month) (\<lambda>month_int.
     if month_int < 1 \<or> month_int > 12
     then Inl (TimelyError ''Month value has to be between 1 and 12.'')
     else Inr [1..([31, 28, 31, 30, 31, 30, 31, 31, 30, 31, 30, 31] ! nat (month_int - 1))])"

definition days_in_month_366 :: "int \<Rightarrow> int \<Rightarrow> error + int list" where
  "days_in_month_366 month yr =
     ebind (float_int ''Month'' month) (\<lambda>month_int.
     if month_int < 1 \<or> month_int > 12
     then Inl (TimelyError ''Month value has to be between 1 and 12.'')
     else Inr [1..([31, 29, 31, 30, 31, 30, 31, 31, 30, 31, 30, 31] ! nat (month_int - 1))])"

definition days_in_month_julian :: "int \<Rightarrow> int \<Rightarrow> error + int list" where
  "days_in_month_julian month yr =
     ebind (float_int ''Year'' yr) (\<lambda>year_int.
     if year_int mod 4 = 0 then days_in_month_366 month year_int
     else days_in_month_365 month year_int)"

definition days_in_month_proleptic_gregorian :: "int \<Rightarrow> int \<Rightarrow> error + int list" where
  "days_in_month_proleptic_gregorian month yr =
     ebind (float_int ''Year'' yr) (\<lambda>year_int.
     if year_int mod 100 = 0 \<and> year_int mod 400 \<noteq> 0 then days_in_month_365 month year_int
     else days_in_month_julian month year_int)"

definition days_in_month_gregorian :: "int \<Rightarrow> int \<Rightarrow> error + int list" where
  "days_in_month_gregorian month yr =
     ebind (float_int ''Year'' yr) (\<lambda>year_int.
     ebind (float_int ''Month'' month) (\<lambda>month_int.
     if year_int > 1582 \<or> (year_int = 1582 \<and> month_int > 10)
     then days_in_month_proleptic_gregorian month_int year_int
     else if year_int = 1582 \<and> month_int = 10
     then Inr [1, 2, 3, 4, 15, 16, 17, 18, 19, 20, 21, 22, 23, 24, 25, 26, 27, 28, 29, 30, 31]
     else days_in_month_julian month_int year_int))"

definition days_in_year_365 :: "int \<Rightarrow> int \<Rightarrow> error + int list" where
  "days_in_year_365 cyc yr = Inr [1..365]"

definition day_in_year :: "int \<Rightarrow> int \<Rightarrow> error + int list" where
  "day_in_year cyc yr = Inr [1]"

subsection \<open>Leap year check\<close>

definition is_leap_feb29 ::
  "int \<Rightarrow> (int \<Rightarrow> (int \<times> string) list) \<Rightarrow> (int \<Rightarrow> int \<Rightarrow> error + int list) \<Rightarrow> error + bool" where
  "is_leap_feb29 yr fn_year_cycles fn_days_in_cycle =
     ebind (fn_days_in_cycle 2 yr) (\<lambda>ds.
     ebind (py_get ds (- 1)) (\<lambda>l.
     Inr (l = 29)))"

section \<open>Calendar definition\<close>

text \<open>
  The class \<^verbatim>\<open>Calendar\<close>: its attributes are the functions it was built from. No built-in
  calendar returns \<^verbatim>\<open>float('inf')\<close> from \<^verbatim>\<open>days_in_cycle\<close>, so the branches of the source
  that test for it are never taken and a cycle is always a list of day values.
\<close>

record calendar =
  year_cycles :: "int \<Rightarrow> (int \<times> string) list"
  days_in_cycle :: "int \<Rightarrow> int \<Rightarrow> error + int list"
  fn_is_leap ::
    "(int \<Rightarrow> (int \<Rightarrow> (int \<times> string) list) \<Rightarrow> (int \<Rightarrow> int \<Rightarrow> error + int list) \<Rightarrow> error + bool) option"
  cal_alias :: string
  cycles_alias :: "string option"

text \<open>\<^verbatim>\<open>Calendar.__eq__\<close>: two calendars are the same when their aliases are.\<close>

definition Calendar_eq :: "calendar \<Rightarrow> calendar \<Rightarrow> bool" where
  "Calendar_eq c1 c2 = (cal_alias c1 = cal_alias c2)"

definition is_leap :: "calendar \<Rightarrow> int \<Rightarrow> error + bool" where
  "is_leap cal yr =
     (case fn_is_leap cal of
        None \<Rightarrow> Inl (TimelyError (''Leap year concept not defined for '' @ [CHR 0x27]
                               @ cal_alias cal @ [CHR 0x27] @ '' calendar.''))
      | Some f \<Rightarrow> ebind (f yr (year_cycles cal) (days_in_cycle cal)) (\<lambda>b. Inr b))"

definition count_cycles_in_year :: "calendar \<Rightarrow> int \<Rightarrow> int" where
  "count_cycles_in_year cal yr = int (length (year_cycles cal yr))"

definition count_days_in_cycle :: "calendar \<Rightarrow> int \<Rightarrow> int \<Rightarrow> error + int" where
  "count_days_in_cycle cal cyc yr = ebind (days_in_cycle cal cyc yr) (\<lambda>ds. Inr (int (length ds)))"

text \<open>The loop \<^verbatim>\<open>for cycle in range(...): days_in_year += len(self.days_in_cycle(cycle, year))\<close>.\<close>

fun sum_days_in_cycles :: "calendar \<Rightarrow> int \<Rightarrow> int list \<Rightarrow> int \<Rightarrow> error + int" where
  "sum_days_in_cycles cal yr [] acc = Inr acc"
| "sum_days_in_cycles cal yr (c # cs) acc =
     (case days_in_cycle cal c yr of
        Inl e \<Rightarrow> Inl e
      | Inr ds \<Rightarrow> sum_days_in_cycles cal yr cs (acc + int (length ds)))"

definition count_days_in_year :: "calendar \<Rightarrow> int \<Rightarrow> error + int" where
  "count_days_in_year cal yr =
     ebind (days_in_cycle cal 1 yr) (\<lambda>_.
     sum_days_in_cycles cal yr [1..count_cycles_in_year cal yr] 0)"

definition ith_day_in_cycle :: "calendar \<Rightarrow> int \<Rightarrow> int \<Rightarrow> int \<Rightarrow> error + int" where
  "ith_day_in_cycle cal cyc yr i = ebind (days_in_cycle cal cyc yr) (\<lambda>ds. py_get ds (i - 1))"

subsection \<open>Built-in calendars\<close>

definition Cal360 :: calendar where
  "Cal360 = \<lparr>year_cycles = months_of_gregorian_calendar, days_in_cycle = days_in_month_360,
     fn_is_leap = Some is_leap_feb29, cal_alias = ''360_day'', cycles_alias = Some ''month''\<rparr>"

definition Cal365 :: calendar where
  "Cal365 = \<lparr>year_cycles = months_of_gregorian_calendar, days_in_cycle = days_in_month_365,
     fn_is_leap = Some is_leap_feb29, cal_alias = ''noleap'', cycles_alias = Some ''month''\<rparr>"

definition Cal366 :: calendar where
  "Cal366 = \<lparr>year_cycles = months_of_gregorian_calendar, days_in_cycle = days_in_month_366,
     fn_is_leap = Some is_leap_feb29, cal_alias = ''all_leap'', cycles_alias = Some ''month''\<rparr>"

definition CalJulian :: calendar where
  "CalJulian = \<lparr>year_cycles = months_of_gregorian_calendar, days_in_cycle = days_in_month_julian,
     fn_is_leap = Some is_leap_feb29, cal_alias = ''julian'', cycles_alias = Some ''month''\<rparr>"

definition CalProleptic :: calendar where
  "CalProleptic = \<lparr>year_cycles = months_of_gregorian_calendar,
     days_in_cycle = days_in_month_proleptic_gregorian,
     fn_is_leap = Some is_leap_feb29, cal_alias = ''proleptic_gregorian'',
     cycles_alias = Some ''month''\<rparr>"

definition CalGregorian :: calendar where
  "CalGregorian = \<lparr>year_cycles = months_of_gregorian_calendar,
     days_in_cycle = days_in_month_gregorian,
     fn_is_leap = Some is_leap_feb29, cal_alias = ''gregorian'', cycles_alias = Some ''month''\<rparr>"

definition CalYearsOnly :: calendar where
  "CalYearsOnly = \<lparr>year_cycles = year_cycle, days_in_cycle = day_in_year,
     fn_is_leap = Some is_leap_feb29, cal_alias = ''years_only'', cycles_alias = None\<rparr>"

definition CalMonthsOnly :: calendar where
  "CalMonthsOnly = \<lparr>year_cycles = months_of_gregorian_calendar, days_in_cycle = day_in_year,
     fn_is_leap = None, cal_alias = ''months_only'', cycles_alias = Some ''month''\<rparr>"

definition CalSeasons :: calendar where
  "CalSeasons = \<lparr>year_cycles = temperate_seasons, days_in_cycle = day_in_year,
     fn_is_leap = Some is_leap_feb29, cal_alias = ''seasons'', cycles_alias = Some ''season''\<rparr>"

definition Cal365NoMonths :: calendar where
  "Cal365NoMonths = \<lparr>year_cycles = year_cycle, days_in_cycle = days_in_year_365,
     fn_is_leap = Some is_leap_feb29, cal_alias = ''365_days_no_months'', cycles_alias = None\<rparr>"

section \<open>Time vectors\<close>

text \<open>
  A time vector has six slots: year, cycle, day, hour, minute, second. The source keeps it as
  one row of a numpy masked array: six numbers and, beside them, six mask bits (\<open>True\<close>
  = the slot is not set). The accessor methods \<^verbatim>\<open>year()\<close>, \<^verbatim>\<open>cycle()\<close>, ... of
  \<^verbatim>\<open>_CollectionTime\<close> are the fields of the record.
\<close>

record 'a six =
  year :: 'a
  cycle :: 'a
  day :: 'a
  hour :: 'a
  minute :: 'a
  second :: 'a

record collection_time =
  tdata :: "int six"
  tmask :: "bool six"

text \<open>
  \<^verbatim>\<open>_conversion_to_ma\<close> on a flat list: \<^verbatim>\<open>None\<close> and missing trailing values become
  masked zeros. A masked array argument is returned untouched (the same object; see the
  section on shared buffers).
\<close>

definition conversion_to_ma :: "int option list \<Rightarrow> int list \<times> bool list" where
  "conversion_to_ma time_vector =
     (if time_vector = [] then ([0, 0, 0, 0, 0, 0], [True, True, True, True, True, True])
      else (map (\<lambda>x. case x of None \<Rightarrow> 0 | Some v \<Rightarrow> v) time_vector
              @ replicate (6 - length time_vector) 0,
            map (\<lambda>x. x = None) time_vector @ replicate (6 - length time_vector) True))"

text \<open>
  The values that an array of 64-bit integers holds. The array that numpy builds from a
  list of Python integers has this element type when every value is in this range. For a
  list with a value outside it numpy builds an array of another type, or raises
  \<^verbatim>\<open>OverflowError\<close> when the value is stored in a 64-bit array. Such a list is no time
  vector of this model: \<open>CollectionTime_init\<close> refuses it with \<open>OverflowError\<close>.
\<close>

definition int64 :: "int \<Rightarrow> bool" where
  "int64 v \<longleftrightarrow> - (2 ^ 63) \<le> v \<and> v < 2 ^ 63"

text \<open>
  \<^verbatim>\<open>_CollectionTime.__init__\<close> for a flat list: an array of shape (6,) becomes one row; any
  other one-dimensional shape is refused.
\<close>

definition CollectionTime_init :: "int option list \<Rightarrow> error + collection_time" where
  "CollectionTime_init times_arg =
     (case conversion_to_ma times_arg of (d, m) \<Rightarrow>
        if \<not> list_all int64 d then Inl OverflowError
        else if length d \<noteq> 6
        then Inl (TimelyError ''_CollectionTime needs at least two dimensions.'')
        else Inr \<lparr>tdata = \<lparr>year = d ! 0, cycle = d ! 1, day = d ! 2,
                            hour = d ! 3, minute = d ! 4, second = d ! 5\<rparr>,
                  tmask = \<lparr>year = m ! 0, cycle = m ! 1, day = m ! 2,
                            hour = m ! 3, minute = m ! 4, second = m ! 5\<rparr>\<rparr>)"

text \<open>\<^verbatim>\<open>_CollectionTime.__eq__\<close>: same masks, and equal values wherever a slot is set.\<close>

definition CollectionTime_eq :: "collection_time \<Rightarrow> collection_time \<Rightarrow> bool" where
  "CollectionTime_eq a b =
     (tmask a = tmask b \<and>
      (year (tmask a) \<or> year (tdata a) = year (tdata b)) \<and>
      (cycle (tmask a) \<or> cycle (tdata a) = cycle (tdata b)) \<and>
      (day (tmask a) \<or> day (tdata a) = day (tdata b)) \<and>
      (hour (tmask a) \<or> hour (tdata a) = hour (tdata b)) \<and>
      (minute (tmask a) \<or> minute (tdata a) = minute (tdata b)) \<and>
      (second (tmask a) \<or> second (tdata a) = second (tdata b)))"

section \<open>Time intervals\<close>

text \<open>
  \<^verbatim>\<open>DeltaT\<close> (through \<^verbatim>\<open>MultiDeltaT.__init__\<close>): every masked slot is set to zero, so a
  time interval is six integers.
\<close>

definition DeltaT :: "int option list \<Rightarrow> error + int six" where
  "DeltaT times_arg = ebind (CollectionTime_init times_arg) (\<lambda>r. Inr (tdata r))"

definition DeltaT_mul :: "int six \<Rightarrow> int \<Rightarrow> int six" where
  "DeltaT_mul dt multiplier =
     \<lparr>year = year dt * multiplier, cycle = cycle dt * multiplier, day = day dt * multiplier,
      hour = hour dt * multiplier, minute = minute dt * multiplier,
      second = second dt * multiplier\<rparr>"

definition one_second :: "int six" where
  "one_second = \<lparr>year = 0, cycle = 0, day = 0, hour = 0, minute = 0, second = 1\<rparr>"

definition one_minute :: "int six" where
  "one_minute = \<lparr>year = 0, cycle = 0, day = 0, hour = 0, minute = 1, second = 0\<rparr>"

definition one_hour :: "int six" where
  "one_hour = \<lparr>year = 0, cycle = 0, day = 0, hour = 1, minute = 0, second = 0\<rparr>"

definition one_day :: "int six" where
  "one_day = \<lparr>year = 0, cycle = 0, day = 1, hour = 0, minute = 0, second = 0\<rparr>"

definition one_cycle :: "int six" where
  "one_cycle = \<lparr>year = 0, cycle = 1, day = 0, hour = 0, minute = 0, second = 0\<rparr>"

definition one_year :: "int six" where
  "one_year = \<lparr>year = 1, cycle = 0, day = 0, hour = 0, minute = 0, second = 0\<rparr>"

section \<open>Dates\<close>

text \<open>
  A \<^verbatim>\<open>Date\<close> is a \<^verbatim>\<open>MultiDate\<close> of shape (1, 6): one time vector and its calendar.
\<close>

record date = collection_time +
  calendar :: calendar

subsection \<open>Construction: \<^verbatim>\<open>MultiDate.__init__\<close>\<close>

text \<open>
  The constructor works on all rows at once, one check after the other; a check that fails on
  any row raises. \<open>map_rows\<close> applies one step to every row in order.
\<close>

fun map_rows :: "('a \<Rightarrow> error + 'b) \<Rightarrow> 'a list \<Rightarrow> error + 'b list" where
  "map_rows f [] = Inr []"
| "map_rows f (x # xs) =
     (case f x of
        Inl e \<Rightarrow> Inl e
      | Inr y \<Rightarrow> (case map_rows f xs of Inl e \<Rightarrow> Inl e | Inr ys \<Rightarrow> Inr (y # ys)))"

text \<open>"Look for unmasked element following a masked element".\<close>

definition check_mask_order :: "collection_time \<Rightarrow> error + collection_time" where
  "check_mask_order r =
     (let m = tmask r in
      if (year m \<and> \<not> cycle m) \<or> (cycle m \<and> \<not> day m) \<or> (day m \<and> \<not> hour m)
         \<or> (hour m \<and> \<not> minute m) \<or> (minute m \<and> \<not> second m)
      then Inl (TimelyError ''Unmasked element following a masked element.'')
      else Inr r)"

text \<open>"Look for negative values": slots 1 to 5; a masked slot does not count in the sum.\<close>

definition check_negative :: "collection_time \<Rightarrow> error + collection_time" where
  "check_negative r =
     (let d = tdata r; m = tmask r in
      if (\<not> cycle m \<and> cycle d < 0) \<or> (\<not> day m \<and> day d < 0) \<or> (\<not> hour m \<and> hour d < 0)
         \<or> (\<not> minute m \<and> minute d < 0) \<or> (\<not> second m \<and> second d < 0)
      then Inl (TimelyError ''Negative value in date.'')
      else Inr r)"

text \<open>
  A masked cycle is set to 1 (the assignment clears its mask); then the day lists
  \<^verbatim>\<open>self.days_in_cycle()\<close> are read from the calendar.
\<close>

definition fill_cycle :: "calendar \<Rightarrow> collection_time \<Rightarrow> error + collection_time \<times> int list" where
  "fill_cycle cal r =
     (let r1 = (if cycle (tmask r)
                then r\<lparr>tdata := (tdata r)\<lparr>cycle := 1\<rparr>, tmask := (tmask r)\<lparr>cycle := False\<rparr>\<rparr>
                else r)
      in ebind (days_in_cycle cal (cycle (tdata r1)) (year (tdata r1))) (\<lambda>ds. Inr (r1, ds)))"

text \<open>
  A masked day is set to the first day of the cycle, \<^verbatim>\<open>_Vget_item(days_in_cycle, 0)\<close>. The
  day lists come from a vectorised call on the year and cycle slots, and numpy masks the
  result of a vectorised call wherever an argument is masked: the first day carries the mask
  of the year slot, and assigning it sets the day's mask to that.
\<close>

definition fill_day :: "collection_time \<times> int list \<Rightarrow> error + collection_time \<times> int list" where
  "fill_day rd =
     (case rd of (r, ds) \<Rightarrow>
        ebind (py_get ds 0) (\<lambda>first_day.
        Inr (if day (tmask r)
             then r\<lparr>tdata := (tdata r)\<lparr>day := first_day\<rparr>,
                    tmask := (tmask r)\<lparr>day := year (tmask r)\<rparr>\<rparr>
             else r, ds)))"

text \<open>
  \<^verbatim>\<open>cycles_in_year\<close> is masked where the year is, and a masked comparison does not count in
  the sum: the range check of the cycle is made only where the year is set.
\<close>

definition check_cycle :: "calendar \<Rightarrow> collection_time \<times> int list \<Rightarrow> error + collection_time \<times> int list" where
  "check_cycle cal rd =
     (case rd of (r, ds) \<Rightarrow>
        let cycles_in_year = count_cycles_in_year cal (year (tdata r)) in
        if \<not> year (tmask r) \<and> (cycle (tdata r) < 1 \<or> cycle (tdata r) > cycles_in_year)
        then Inl (TimelyError ''Invalid cycle value.'')
        else Inr rd)"

definition check_day :: "collection_time \<times> int list \<Rightarrow> error + collection_time" where
  "check_day rd =
     (case rd of (r, ds) \<Rightarrow>
        (case py_index ds (day (tdata r)) of
           Inl e \<Rightarrow> Inl (TimelyError ''Invalid day value.'')
         | Inr i \<Rightarrow> Inr r))"

definition fill_hour :: "collection_time \<Rightarrow> error + collection_time" where
  "fill_hour r =
     (let r1 = (if hour (tmask r)
                then r\<lparr>tdata := (tdata r)\<lparr>hour := 0\<rparr>, tmask := (tmask r)\<lparr>hour := False\<rparr>\<rparr>
                else r)
      in if hour (tdata r1) \<ge> 24 then Inl (TimelyError ''Invalid hour value.'') else Inr r1)"

definition fill_minute :: "collection_time \<Rightarrow> error + collection_time" where
  "fill_minute r =
     (let r1 = (if minute (tmask r)
                then r\<lparr>tdata := (tdata r)\<lparr>minute := 0\<rparr>, tmask := (tmask r)\<lparr>minute := False\<rparr>\<rparr>
                else r)
      in if minute (tdata r1) \<ge> 60 then Inl (TimelyError ''Invalid minute value.'') else Inr r1)"

definition fill_second :: "collection_time \<Rightarrow> error + collection_time" where
  "fill_second r =
     (let r1 = (if second (tmask r)
                then r\<lparr>tdata := (tdata r)\<lparr>second := 0\<rparr>, tmask := (tmask r)\<lparr>second := False\<rparr>\<rparr>
                else r)
      in if second (tdata r1) \<ge> 60 then Inl (TimelyError ''Invalid second value.'') else Inr r1)"

definition MultiDate_init :: "collection_time list \<Rightarrow> calendar \<Rightarrow> error + collection_time list" where
  "MultiDate_init rows cal =
     ebind (map_rows check_mask_order rows) (\<lambda>rows.
     ebind (map_rows check_negative rows) (\<lambda>rows.
     ebind (map_rows (fill_cycle cal) rows) (\<lambda>rows.
     ebind (map_rows fill_day rows) (\<lambda>rows.
     ebind (map_rows (check_cycle cal) rows) (\<lambda>rows.
     ebind (map_rows check_day rows) (\<lambda>rows.
     ebind (map_rows fill_hour rows) (\<lambda>rows.
     ebind (map_rows fill_minute rows) (\<lambda>rows.
     map_rows fill_second rows))))))))"

text \<open>
  \<^verbatim>\<open>Date(times, calendar)\<close> on one row of a masked array, and \<^verbatim>\<open>Date(time, calendar)\<close>
  on a list.
\<close>

definition Date_of_times :: "collection_time \<Rightarrow> calendar \<Rightarrow> error + date" where
  "Date_of_times r cal =
     ebind (MultiDate_init [r] cal) (\<lambda>rows.
     Inr \<lparr>tdata = tdata (rows ! 0), tmask = tmask (rows ! 0), calendar = cal\<rparr>)"

definition Date :: "int option list \<Rightarrow> calendar \<Rightarrow> error + date" where
  "Date time cal = ebind (CollectionTime_init time) (\<lambda>r. Date_of_times r cal)"

definition times_of :: "date \<Rightarrow> collection_time" where
  "times_of d = \<lparr>tdata = tdata d, tmask = tmask d\<rparr>"

text \<open>\<^verbatim>\<open>MultiDate.__eq__\<close> on two dates.\<close>

definition MultiDate_eq :: "date \<Rightarrow> date \<Rightarrow> bool" where
  "MultiDate_eq self other =
     (CollectionTime_eq (times_of self) (times_of other)
      \<and> Calendar_eq (calendar self) (calendar other))"

subsection \<open>Calendar queries of a date\<close>

abbreviation set_year :: "date \<Rightarrow> int \<Rightarrow> date" where
  "set_year self v \<equiv> self\<lparr>tdata := (tdata self)\<lparr>year := v\<rparr>\<rparr>"

abbreviation set_cycle :: "date \<Rightarrow> int \<Rightarrow> date" where
  "set_cycle self v \<equiv> self\<lparr>tdata := (tdata self)\<lparr>cycle := v\<rparr>\<rparr>"

abbreviation set_day :: "date \<Rightarrow> int \<Rightarrow> date" where
  "set_day self v \<equiv> self\<lparr>tdata := (tdata self)\<lparr>day := v\<rparr>\<rparr>"

abbreviation set_hour :: "date \<Rightarrow> int \<Rightarrow> date" where
  "set_hour self v \<equiv> self\<lparr>tdata := (tdata self)\<lparr>hour := v\<rparr>\<rparr>"

abbreviation set_minute :: "date \<Rightarrow> int \<Rightarrow> date" where
  "set_minute self v \<equiv> self\<lparr>tdata := (tdata self)\<lparr>minute := v\<rparr>\<rparr>"

abbreviation set_second :: "date \<Rightarrow> int \<Rightarrow> date" where
  "set_second self v \<equiv> self\<lparr>tdata := (tdata self)\<lparr>second := v\<rparr>\<rparr>"

definition MultiDate_count_cycles_in_year :: "date \<Rightarrow> int" where
  "MultiDate_count_cycles_in_year self = count_cycles_in_year (calendar self) (year (tdata self))"

definition MultiDate_count_days_in_cycle :: "date \<Rightarrow> error + int" where
  "MultiDate_count_days_in_cycle self =
     count_days_in_cycle (calendar self) (cycle (tdata self)) (year (tdata self))"

definition MultiDate_count_days_in_year :: "date \<Rightarrow> error + int" where
  "MultiDate_count_days_in_year self = count_days_in_year (calendar self) (year (tdata self))"

definition MultiDate_ith_day_in_cycle :: "date \<Rightarrow> int \<Rightarrow> error + int" where
  "MultiDate_ith_day_in_cycle self i =
     ith_day_in_cycle (calendar self) (cycle (tdata self)) (year (tdata self)) i"

definition day_number_in_cycle :: "date \<Rightarrow> error + int" where
  "day_number_in_cycle self =
     ebind (days_in_cycle (calendar self) (cycle (tdata self)) (year (tdata self))) (\<lambda>ds.
     ebind (py_index ds (day (tdata self))) (\<lambda>i.
     Inr (i + 1)))"

text \<open>
  The loop of \<^verbatim>\<open>day_number_in_year\<close>, \<^verbatim>\<open>for i in range(1, self.times[..., 1].max())\<close>: the
  days of the cycles before the date's own.
\<close>

fun day_number_loop :: "date \<Rightarrow> int list \<Rightarrow> int \<Rightarrow> error + int" where
  "day_number_loop self [] acc = Inr acc"
| "day_number_loop self (i # rest) acc =
     (let flag_over = MultiDate_count_cycles_in_year self < i;
          this_cycle = i - (i - 1) * of_bool flag_over
      in case count_days_in_cycle (calendar self) this_cycle (year (tdata self)) of
           Inl e \<Rightarrow> Inl e
         | Inr n \<Rightarrow> day_number_loop self rest (acc + n * of_bool (cycle (tdata self) > i)))"

definition day_number_in_year :: "date \<Rightarrow> error + int" where
  "day_number_in_year self =
     ebind (day_number_loop self [1..cycle (tdata self) - 1] 0) (\<lambda>n.
     ebind (day_number_in_cycle self) (\<lambda>k.
     Inr (n + k)))"

subsection \<open>Adding to a date\<close>

text \<open>
  The \<^verbatim>\<open>add_*\<close> methods change the date they are called on; here they take the date and
  return the changed one. Increments are whole numbers, so the fractional parts the source
  passes down to the next unit are zero. Three of the methods loop with
  \<^verbatim>\<open>while True: ... break\<close>; a loop that does not end is the value \<open>None\<close>.
\<close>

definition obind :: "(error + 'a) option \<Rightarrow> ('a \<Rightarrow> (error + 'b) option) \<Rightarrow> (error + 'b) option" where
  "obind m f = (case m of None \<Rightarrow> None | Some (Inl e) \<Rightarrow> Some (Inl e) | Some (Inr v) \<Rightarrow> f v)"

definition add_years :: "date \<Rightarrow> int \<Rightarrow> date" where
  "add_years self increments = set_year self (year (tdata self) + increments)"

partial_function (option) add_cycles_loop ::
  "calendar \<Rightarrow> int \<Rightarrow> int \<Rightarrow> bool \<Rightarrow> (int \<times> int \<times> bool \<times> int) option" where
  "add_cycles_loop cal yr integral flag_under =
     (let cycles_in_year = count_cycles_in_year cal yr;
          integral = integral + cycles_in_year * of_bool flag_under;
          flag_over = integral \<ge> cycles_in_year;
          flag_under = integral < 0;
          yr = yr + of_bool flag_over - of_bool flag_under;
          integral = integral - cycles_in_year * of_bool flag_over
      in if \<not> (flag_over \<or> flag_under) then Some (yr, integral, flag_under, cycles_in_year)
         else add_cycles_loop cal yr integral flag_under)"

declare add_cycles_loop.simps [code]

definition add_cycles :: "date \<Rightarrow> int \<Rightarrow> (error + date) option" where
  "add_cycles self increments =
     (let integral = increments;
          cycles_in_year = MultiDate_count_cycles_in_year self;
          max_add = cycles_in_year - cycle (tdata self);
          max_sub = 1 - cycle (tdata self);
          flag_over = integral > max_add;
          flag_under = integral < max_sub;
          flag_either = flag_over \<or> flag_under;
          self = set_year self (year (tdata self) + of_bool flag_over);
          flag_neg = integral < 0;
          warp1 = (cycle (tdata self) - 1) * of_bool flag_either;
          warp2 = of_bool flag_neg * (1 - of_bool flag_under) * integral;
          self = set_cycle self (cycle (tdata self) - warp1 + warp2);
          warp3 = of_bool flag_over * (max_add + 1);
          integral = integral - warp3 - of_bool flag_under * max_sub - warp2
      in case add_cycles_loop (calendar self) (year (tdata self)) integral False of
           None \<Rightarrow> None
         | Some (yr, integral, flag_under, cycles_in_year) \<Rightarrow>
             let self = set_year self yr;
                 integral = integral + cycles_in_year * of_bool flag_under
             in Some (Inr (set_cycle self (cycle (tdata self) + integral))))"

text \<open>The first loop of \<^verbatim>\<open>add_days\<close>: whole years.\<close>

partial_function (option) add_days_year_loop ::
  "calendar \<Rightarrow> bool \<Rightarrow> int \<Rightarrow> int \<Rightarrow> int \<Rightarrow> int \<Rightarrow> (error + int \<times> int \<times> int \<times> int) option" where
  "add_days_year_loop cal flag_under yr dy integral days_in_year =
     (let flag_over = integral \<ge> days_in_year;
          flag_neg = integral < 0;
          flag_either = flag_over \<or> (flag_neg \<and> flag_under);
          yr = yr + of_bool flag_over - of_bool (flag_under \<and> flag_neg)
      in case ith_day_in_cycle cal 1 yr 1 of
           Inl e \<Rightarrow> Some (Inl e)
         | Inr first_day_in_first_cycle \<Rightarrow>
             let dy = dy - (dy - first_day_in_first_cycle) * of_bool flag_either;
                 warp1 = of_bool flag_over * days_in_year
             in case count_days_in_year cal yr of
                  Inl e \<Rightarrow> Some (Inl e)
                | Inr days_in_year \<Rightarrow>
                    let integral = integral - warp1 - of_bool (flag_neg \<and> flag_under) * days_in_year
                    in if \<not> (flag_over \<or> (flag_under \<and> flag_neg))
                       then Some (Inr (yr, dy, integral, days_in_year))
                       else add_days_year_loop cal flag_under yr dy integral days_in_year)"

declare add_days_year_loop.simps [code]

text \<open>The second loop of \<^verbatim>\<open>add_days\<close>: whole cycles.\<close>

partial_function (option) add_days_cycle_loop ::
  "calendar \<Rightarrow> bool \<Rightarrow> int \<Rightarrow> int \<Rightarrow> int \<Rightarrow> int \<Rightarrow> int \<Rightarrow> (error + int \<times> int \<times> int \<times> int) option" where
  "add_days_cycle_loop cal flag_under yr cyc dy integral days_in_cycle_count =
     (let flag_over = integral \<ge> days_in_cycle_count;
          flag_neg = integral < 0;
          flag_either = flag_over \<or> (flag_neg \<and> flag_under);
          cyc = cyc + of_bool flag_over - of_bool (flag_under \<and> flag_neg)
      in case ith_day_in_cycle cal cyc yr 1 of
           Inl e \<Rightarrow> Some (Inl e)
         | Inr first_day_in_cycle \<Rightarrow>
             let dy = dy - (dy - first_day_in_cycle) * of_bool flag_either;
                 warp1 = of_bool flag_over * days_in_cycle_count
             in case count_days_in_cycle cal cyc yr of
                  Inl e \<Rightarrow> Some (Inl e)
                | Inr days_in_cycle_count \<Rightarrow>
                    let integral = integral - warp1
                                   + of_bool (flag_neg \<and> flag_under) * days_in_cycle_count
                    in if \<not> (flag_over \<or> (flag_under \<and> flag_neg))
                       then Some (Inr (cyc, dy, integral, days_in_cycle_count))
                       else add_days_cycle_loop cal flag_under yr cyc dy integral days_in_cycle_count)"

declare add_days_cycle_loop.simps [code]

definition add_days_cycles :: "date \<Rightarrow> int \<Rightarrow> (error + date) option" where
  "add_days_cycles self integral =
     obind (Some (MultiDate_count_days_in_cycle self)) (\<lambda>days_in_cycle_count.
     obind (Some (day_number_in_cycle self)) (\<lambda>days_numbers.
     let max_add = days_in_cycle_count - days_numbers;
         max_sub = 1 - days_numbers;
         flag_over = integral > max_add;
         flag_under = integral < max_sub;
         flag_either = flag_over \<or> flag_under;
         self = set_cycle self (cycle (tdata self) + of_bool flag_over - of_bool flag_under)
     in obind (Some (MultiDate_ith_day_in_cycle self 1)) (\<lambda>first_day_in_cycle.
        let warp1 = (day (tdata self) - first_day_in_cycle) * of_bool flag_either;
            self = set_day self (day (tdata self) - warp1)
        in obind (Some (MultiDate_count_days_in_cycle self)) (\<lambda>days_in_cycle_count.
           let integral = integral - of_bool flag_over * (max_add + 1)
                          - of_bool flag_under * (max_sub - days_in_cycle_count)
           in obind (add_days_cycle_loop (calendar self) flag_under (year (tdata self))
                       (cycle (tdata self)) (day (tdata self)) integral days_in_cycle_count)
                (\<lambda>(cyc, dy, integral, days_in_cycle_count).
                   let self = set_day (set_cycle self cyc) dy
                   in obind (Some (day_number_in_cycle self)) (\<lambda>days_numbers.
                      let new_day_numbers = days_numbers + integral
                      in obind (Some (MultiDate_ith_day_in_cycle self new_day_numbers))
                           (\<lambda>new_day_values. Some (Inr (set_day self new_day_values)))))))))"

definition add_days :: "date \<Rightarrow> int \<Rightarrow> (error + date) option" where
  "add_days self increments =
     (let integral = increments in
      obind (Some (MultiDate_count_days_in_year self)) (\<lambda>days_in_year.
      obind (Some (day_number_in_year self)) (\<lambda>days_numbers.
      let max_add = days_in_year - days_numbers;
          max_sub = 1 - days_numbers;
          flag_over = integral > max_add;
          flag_under = integral < max_sub;
          flag_either = flag_over \<or> flag_under;
          self = set_year self (year (tdata self) + of_bool flag_over - of_bool flag_under);
          warp1 = (cycle (tdata self) - 1) * of_bool flag_either;
          self = set_cycle self (cycle (tdata self) - warp1)
      in obind (Some (ith_day_in_cycle (calendar self) 1 (year (tdata self)) 1))
           (\<lambda>first_day_in_first_cycle.
         let warp1 = (day (tdata self) - first_day_in_first_cycle) * of_bool flag_either;
             self = set_day self (day (tdata self) - warp1)
         in obind (Some (MultiDate_count_days_in_year self)) (\<lambda>days_in_year.
            let integral = integral - of_bool flag_over * (max_add + 1)
                           - of_bool flag_under * (max_sub - days_in_year)
            in obind (add_days_year_loop (calendar self) flag_under (year (tdata self))
                        (day (tdata self)) integral days_in_year)
                 (\<lambda>(yr, dy, integral, days_in_year).
                    add_days_cycles (set_day (set_year self yr) dy) integral))))))"

definition add_hours :: "date \<Rightarrow> int \<Rightarrow> (error + date) option" where
  "add_hours self integral =
     (let flag_over = integral \<ge> 24 - hour (tdata self);
          flag_under = integral < - hour (tdata self);
          overflow = flag_over \<or> flag_under
      in obind (if overflow then add_days self ((integral + hour (tdata self)) div 24)
                else Some (Inr self)) (\<lambda>self.
         let warp = of_bool overflow
                    * (- hour (tdata self) + (integral + hour (tdata self)) mod 24)
         in Some (Inr (set_hour self
                         (hour (tdata self) + (1 - of_bool overflow) * integral + warp)))))"

definition add_minutes :: "date \<Rightarrow> int \<Rightarrow> (error + date) option" where
  "add_minutes self integral =
     (let flag_over = integral \<ge> 60 - minute (tdata self);
          flag_under = integral < - minute (tdata self);
          overflow = flag_over \<or> flag_under
      in obind (if overflow then add_hours self ((integral + minute (tdata self)) div 60)
                else Some (Inr self)) (\<lambda>self.
         let warp = of_bool overflow
                    * (- minute (tdata self) + (integral + minute (tdata self)) mod 60)
         in Some (Inr (set_minute self
                         (minute (tdata self) + (1 - of_bool overflow) * integral + warp)))))"

text \<open>The module's rounding threshold for seconds, 0.001.\<close>

definition threshold :: real where
  "threshold = 1 / 1000"

definition add_seconds :: "date \<Rightarrow> int \<Rightarrow> (error + date) option" where
  "add_seconds self increments =
     (let new_seconds = second (tdata self) + increments;
          flag_over = new_seconds \<ge> 60;
          flag_under = new_seconds < 0;
          overflow = flag_over \<or> flag_under
      in obind (if overflow then add_minutes self (new_seconds div 60) else Some (Inr self))
           (\<lambda>self.
         let t1 = of_bool flag_over * (- new_seconds + new_seconds mod 60);
             t2 = of_bool flag_under * (- new_seconds + new_seconds mod 60);
             new_seconds = new_seconds + t1 + t2;
             flag_threshold_under = real_of_int new_seconds < threshold;
             flag_threshold_over = real_of_int new_seconds > 60 - threshold;
             new_seconds = (if flag_threshold_under \<or> flag_threshold_over then 0
                            else new_seconds)
         in obind (add_minutes self (of_bool flag_threshold_over)) (\<lambda>self.
            Some (Inr (set_second self new_seconds)))))"

text \<open>
  \<^verbatim>\<open>MultiDate.__add__\<close>: a date is built from the operand's time vector (which validates
  it again), then years, cycles, days, hours, minutes and seconds are added in this order.
  \<^verbatim>\<open>MultiDate.__sub__\<close> adds the interval multiplied by -1.
\<close>

definition MultiDate_add :: "date \<Rightarrow> int six \<Rightarrow> (error + date) option" where
  "MultiDate_add self multideltat =
     obind (Some (Date_of_times (times_of self) (calendar self))) (\<lambda>new_mdate.
     obind (add_cycles (add_years new_mdate (year multideltat)) (cycle multideltat)) (\<lambda>new_mdate.
     obind (add_days new_mdate (day multideltat)) (\<lambda>new_mdate.
     obind (add_hours new_mdate (hour multideltat)) (\<lambda>new_mdate.
     obind (add_minutes new_mdate (minute multideltat)) (\<lambda>new_mdate.
     add_seconds new_mdate (second multideltat))))))"

definition MultiDate_sub :: "date \<Rightarrow> int six \<Rightarrow> (error + date) option" where
  "MultiDate_sub self multideltat = MultiDate_add self (DeltaT_mul multideltat (- 1))"

subsection \<open>Comparing dates\<close>

text \<open>
  \<^verbatim>\<open>MultiDate.__gt__\<close>, \<^verbatim>\<open>__lt__\<close>, \<^verbatim>\<open>__ge__\<close> and \<^verbatim>\<open>__le__\<close> with a \<^verbatim>\<open>Date\<close> as the other
  operand: the other date is rebuilt by the constructor, a warning is issued when the
  calendars differ, and the six slots are compared from the seconds up. The result is the
  list of warnings and the boolean. The class \<^verbatim>\<open>Date\<close> defines no order methods of its
  own (its former ones are renamed \<^verbatim>\<open>__gt_obsolete_\<close>, ...), so these are the comparisons
  of dates. The slots are compared by value; all of them are set on every date built from a
  time vector that has a year.
\<close>

definition calendar_warning :: "date \<Rightarrow> date \<Rightarrow> string list" where
  "calendar_warning self other =
     (if \<not> Calendar_eq (calendar self) (calendar other)
      then [''__gt__ using different calendars, you better know what you are doing...'']
      else [])"

definition MultiDate_gt :: "date \<Rightarrow> date \<Rightarrow> error + string list \<times> bool" where
  "MultiDate_gt self other =
     ebind (Date_of_times (times_of other) (calendar other)) (\<lambda>other.
     let s = tdata self; t = tdata other;
         warp = second s > second t;
         warp = (minute s = minute t \<and> warp);
         warp = (minute s > minute t \<or> warp);
         warp = (hour s = hour t \<and> warp);
         warp = (hour s > hour t \<or> warp);
         warp = (day s = day t \<and> warp);
         warp = (day s > day t \<or> warp);
         warp = (cycle s = cycle t \<and> warp);
         warp = (cycle s > cycle t \<or> warp);
         warp = (year s = year t \<and> warp)
     in Inr (calendar_warning self other, year s > year t \<or> warp))"

definition MultiDate_lt :: "date \<Rightarrow> date \<Rightarrow> error + string list \<times> bool" where
  "MultiDate_lt self other =
     ebind (Date_of_times (times_of other) (calendar other)) (\<lambda>other.
     let s = tdata self; t = tdata other;
         warp = second s < second t;
         warp = (minute s = minute t \<and> warp);
         warp = (minute s < minute t \<or> warp);
         warp = (hour s = hour t \<and> warp);
         warp = (hour s < hour t \<or> warp);
         warp = (day s = day t \<and> warp);
         warp = (day s < day t \<or> warp);
         warp = (cycle s = cycle t \<and> warp);
         warp = (cycle s < cycle t \<or> warp);
         warp = (year s = year t \<and> warp)
     in Inr (calendar_warning self other, year s < year t \<or> warp))"

definition MultiDate_ge :: "date \<Rightarrow> date \<Rightarrow> error + string list \<times> bool" where
  "MultiDate_ge self other =
     ebind (Date_of_times (times_of other) (calendar other)) (\<lambda>other.
     let s = tdata self; t = tdata other;
         warp = second s \<ge> second t;
         warp = (minute s = minute t \<and> warp);
         warp = (minute s > minute t \<or> warp);
         warp = (hour s = hour t \<and> warp);
         warp = (hour s > hour t \<or> warp);
         warp = (day s = day t \<and> warp);
         warp = (day s > day t \<or> warp);
         warp = (cycle s = cycle t \<and> warp);
         warp = (cycle s > cycle t \<or> warp);
         warp = (year s = year t \<and> warp)
     in Inr (calendar_warning self other, year s > year t \<or> warp))"

definition MultiDate_le :: "date \<Rightarrow> date \<Rightarrow> error + string list \<times> bool" where
  "MultiDate_le self other =
     ebind (Date_of_times (times_of other) (calendar other)) (\<lambda>other.
     let s = tdata self; t = tdata other;
         warp = second s \<le> second t;
         warp = (minute s = minute t \<and> warp);
         warp = (minute s < minute t \<or> warp);
         warp = (hour s = hour t \<and> warp);
         warp = (hour s < hour t \<or> warp);
         warp = (day s = day t \<and> warp);
         warp = (day s < day t \<or> warp);
         warp = (cycle s = cycle t \<and> warp);
         warp = (cycle s < cycle t \<or> warp);
         warp = (year s = year t \<and> warp)
     in Inr (calendar_warning self other, year s < year t \<or> warp))"

section \<open>Periods\<close>

text \<open>
  A \<^verbatim>\<open>Period\<close> is a \<^verbatim>\<open>MultiPeriod\<close> of shape (2, 6): the initial and the final time vector,
  the two boundary flags and the calendar.
\<close>

record period =
  initial_times :: collection_time
  final_times :: collection_time
  left_open :: bool
  right_open :: bool
  pcalendar :: calendar

definition Period :: "collection_time \<Rightarrow> collection_time \<Rightarrow> bool \<Rightarrow> bool \<Rightarrow> calendar \<Rightarrow> error + period" where
  "Period t0 t1 lo ro cal =
     ebind (MultiDate_init [t0, t1] cal) (\<lambda>rows.
     ebind (Date_of_times (rows ! 0) cal) (\<lambda>initial_date.
     ebind (Date_of_times (rows ! 1) cal) (\<lambda>final_date.
     ebind (MultiDate_ge initial_date final_date) (\<lambda>(w, ge).
     if ge then Inl (TimelyError ''Initial date must precede final date.'')
     else Inr \<lparr>initial_times = rows ! 0, final_times = rows ! 1,
               left_open = lo, right_open = ro, pcalendar = cal\<rparr>))))"

definition explicit_period :: "date \<Rightarrow> date \<Rightarrow> bool \<Rightarrow> bool \<Rightarrow> error + period" where
  "explicit_period initial_date final_date lo ro =
     (if \<not> Calendar_eq (calendar initial_date) (calendar final_date)
      then Inl (TimelyError ''The two dates defining the period must have the same calendar.'')
      else Period (times_of initial_date) (times_of final_date) lo ro (calendar initial_date))"

definition initial_date :: "period \<Rightarrow> error + date" where
  "initial_date self = Date_of_times (initial_times self) (pcalendar self)"

definition final_date :: "period \<Rightarrow> error + date" where
  "final_date self = Date_of_times (final_times self) (pcalendar self)"

subsection \<open>Regular sampling\<close>

text \<open>
  \<^verbatim>\<open>Period.regular_sample(deltat, buffer)\<close>, with \<^verbatim>\<open>new_calendar\<close> left at its default
  \<^verbatim>\<open>None\<close>. The loop \<^verbatim>\<open>while next_date <= final_date\<close> stacks the time vector of
  \<^verbatim>\<open>next_date\<close> and adds \<^verbatim>\<open>deltat\<close>; a run that never leaves the loop is \<open>None\<close>. The method
  returns Python's \<^verbatim>\<open>None\<close> (here the inner \<open>None\<close>) when the first date is already
  past the final one, else the \<^verbatim>\<open>TimeSeries\<close> built from the stacked values.
\<close>

partial_function (option) regular_sample_loop ::
  "bool \<Rightarrow> date \<Rightarrow> int six \<Rightarrow> date \<Rightarrow> int six list \<Rightarrow> (error + int six list) option" where
  "regular_sample_loop ro final deltat next_date multidate_times =
     (case MultiDate_le next_date final of
        Inl e \<Rightarrow> Some (Inl e)
      | Inr (w, le) \<Rightarrow>
          if \<not> le then Some (Inr multidate_times)
          else if ro \<and> MultiDate_eq next_date final then Some (Inr multidate_times)
          else (case MultiDate_add next_date deltat of
                  None \<Rightarrow> None
                | Some (Inl e) \<Rightarrow> Some (Inl e)
                | Some (Inr n) \<Rightarrow>
                    regular_sample_loop ro final deltat n (multidate_times @ [tdata next_date])))"

declare regular_sample_loop.simps [code]

text \<open>
  \<^verbatim>\<open>if buffer:\<close> uses \<^verbatim>\<open>MultiDeltaT.__nonzero__\<close>: an interval whose slots sum to zero
  counts as no buffer.
\<close>

definition DeltaT_nonzero :: "int six \<Rightarrow> bool" where
  "DeltaT_nonzero dt = (year dt + cycle dt + day dt + hour dt + minute dt + second dt \<noteq> 0)"

definition unmasked :: "bool six" where
  "unmasked = \<lparr>year = False, cycle = False, day = False, hour = False, minute = False,
               second = False\<rparr>"

definition TimeSeries :: "int six list \<Rightarrow> calendar \<Rightarrow> error + collection_time list" where
  "TimeSeries values_arg cal =
     MultiDate_init (map (\<lambda>v. \<lparr>tdata = v, tmask = unmasked\<rparr>) values_arg) cal"

definition regular_sample ::
  "period \<Rightarrow> int six \<Rightarrow> int six option \<Rightarrow> (error + collection_time list option) option" where
  "regular_sample self deltat buffer =
     obind (case buffer of
              None \<Rightarrow> Some (initial_date self)
            | Some b \<Rightarrow> if DeltaT_nonzero b
                        then obind (Some (initial_date self)) (\<lambda>d. MultiDate_add d b)
                        else Some (initial_date self)) (\<lambda>initial.
     obind (Some (final_date self)) (\<lambda>final.
     obind (Some (initial_date self)) (\<lambda>self_initial.
     obind (if left_open self \<and> MultiDate_eq initial self_initial
            then MultiDate_add initial deltat else Some (Inr initial)) (\<lambda>initial.
     obind (Some (if right_open self then MultiDate_ge initial final
                  else MultiDate_gt initial final)) (\<lambda>(w, past).
     if past then Some (Inr None)
     else obind (MultiDate_add initial deltat) (\<lambda>next_date.
          obind (regular_sample_loop (right_open self) final deltat next_date [tdata initial])
            (\<lambda>multidate_times.
          obind (Some (TimeSeries multidate_times (pcalendar self))) (\<lambda>ts.
          Some (Inr (Some ts))))))))))"

subsection \<open>Length of a period\<close>

text \<open>
  The \<^verbatim>\<open>count_*\<close> methods of \<^verbatim>\<open>MultiPeriod\<close> for one period with integer slots
  (\<^verbatim>\<open>decimals = False\<close>). The products of numpy booleans are conjunctions, \<^verbatim>\<open>~flag\<close> on a
  boolean is its negation, and a boolean counts as 0 or 1 in a sum.
\<close>

definition period_date :: "period \<Rightarrow> collection_time \<Rightarrow> date" where
  "period_date self r = \<lparr>tdata = tdata r, tmask = tmask r, calendar = pcalendar self\<rparr>"

text \<open>
  The initial year of \<^verbatim>\<open>count_days\<close>, \<^verbatim>\<open>for cc in range(1, warp.max() + 1)\<close>: the days
  before the initial date are taken off. \<^verbatim>\<open>self.day_number_in_cycle()\<close> is evaluated for
  both rows of the period at every turn.
\<close>

fun count_days_initial :: "period \<Rightarrow> int \<Rightarrow> int list \<Rightarrow> int \<Rightarrow> error + int" where
  "count_days_initial self y [] day_count = Inr day_count"
| "count_days_initial self y (cc # rest) day_count =
     (let c0 = cycle (tdata (initial_times self));
          flag_initial_cycle = (cc = c0);
          flag_before = (cc < c0)
      in ebind (count_days_in_cycle (pcalendar self) cc y) (\<lambda>days_in_cycle_count.
         ebind (day_number_in_cycle (period_date self (initial_times self))) (\<lambda>day_num0.
         ebind (day_number_in_cycle (period_date self (final_times self))) (\<lambda>day_num1.
         let t1 = of_bool flag_initial_cycle * (day_num0 - 1);
             t2 = of_bool flag_before * days_in_cycle_count
         in count_days_initial self y rest (day_count - (t1 + t2))))))"

text \<open>The final year, \<^verbatim>\<open>for cc in range(warp1.min(), warp2.max() + 1)\<close>: the days after the
  final date are taken off.\<close>

fun count_days_final :: "period \<Rightarrow> int \<Rightarrow> int list \<Rightarrow> int \<Rightarrow> error + int" where
  "count_days_final self y [] day_count = Inr day_count"
| "count_days_final self y (cc # rest) day_count =
     (let c1 = cycle (tdata (final_times self));
          flag_final_cycle = (cc = c1);
          flag_after = (cc > c1)
      in ebind (count_days_in_cycle (pcalendar self) cc y) (\<lambda>days_in_cycle_count.
         ebind (day_number_in_cycle (period_date self (initial_times self))) (\<lambda>day_num0.
         ebind (day_number_in_cycle (period_date self (final_times self))) (\<lambda>day_num1.
         let warp = days_in_cycle_count - day_num1;
             t1 = of_bool flag_after * days_in_cycle_count;
             t2 = of_bool flag_final_cycle * warp
         in count_days_final self y rest (day_count - (t1 + t2))))))"

text \<open>The loop over the years, \<^verbatim>\<open>for y in range(initial year, final year + 1)\<close>.\<close>

fun count_days_years :: "period \<Rightarrow> int list \<Rightarrow> int \<Rightarrow> error + int" where
  "count_days_years self [] day_count = Inr day_count"
| "count_days_years self (y # rest) day_count =
     (let y0 = year (tdata (initial_times self));
          y1 = year (tdata (final_times self));
          flag_initial_year = (y = y0);
          flag_final_year = (y = y1);
          flag_between = (y \<ge> y0 \<and> y \<le> y1)
      in ebind (if flag_between
                then ebind (count_days_in_year (pcalendar self) y) (\<lambda>days_in_year.
                       Inr (day_count + days_in_year))
                else Inr day_count) (\<lambda>day_count.
         ebind (if flag_initial_year
                then count_days_initial self y [1..cycle (tdata (initial_times self))] day_count
                else Inr day_count) (\<lambda>day_count.
         ebind (if flag_final_year
                then count_days_final self y
                       [cycle (tdata (final_times self))..count_cycles_in_year (pcalendar self) y1]
                       day_count
                else Inr day_count) (\<lambda>day_count.
         count_days_years self rest day_count))))"

definition count_days :: "period \<Rightarrow> error + int" where
  "count_days self =
     (let t0 = tdata (initial_times self); t1 = tdata (final_times self);
          flag_left_open = (left_open self \<and> hour t0 = 23 \<and> minute t0 = 59 \<and> second t0 = 59);
          flag_right_open = (right_open self \<and> hour t1 = 0 \<and> minute t1 = 0 \<and> second t1 = 0)
      in ebind (count_days_years self [year t0..year t1] 0) (\<lambda>day_count.
         Inr (day_count - of_bool flag_left_open - of_bool flag_right_open)))"

definition count_hours :: "period \<Rightarrow> error + int" where
  "count_hours self =
     (let t0 = tdata (initial_times self); t1 = tdata (final_times self);
          flag_left_open_hour = (left_open self \<and> minute t0 = 59 \<and> second t0 = 59);
          flag_left_open = (left_open self \<and> hour t0 = 23 \<and> minute t0 = 59 \<and> second t0 = 59);
          flag_right_open_hour = (right_open self \<and> minute t1 = 0 \<and> second t1 = 0);
          flag_right_open = (right_open self \<and> hour t1 = 0 \<and> minute t1 = 0 \<and> second t1 = 0)
      in ebind (count_days self) (\<lambda>days.
         let num_of_hours = days * 24;
             t1' = - (hour t0 + of_bool flag_left_open_hour) * of_bool (\<not> flag_left_open);
             t2' = - (23 - hour t1 + of_bool flag_right_open_hour) * of_bool (\<not> flag_right_open)
         in Inr (num_of_hours + t1' + t2')))"

definition count_minutes :: "period \<Rightarrow> error + int" where
  "count_minutes self =
     (let t0 = tdata (initial_times self); t1 = tdata (final_times self);
          flag_left_open_hour = (left_open self \<and> minute t0 = 59 \<and> second t0 = 59);
          flag_left_open = (left_open self \<and> second t0 = 59);
          flag_right_open_hour = (right_open self \<and> minute t1 = 0 \<and> second t1 = 0);
          flag_right_open = (right_open self \<and> second t1 = 0)
      in ebind (count_hours self) (\<lambda>hours.
         let num_of_minutes = hours * 60;
             t1' = - (minute t0 + of_bool flag_left_open) * of_bool (\<not> flag_left_open_hour);
             t2' = - (59 - minute t1 + of_bool flag_right_open) * of_bool (\<not> flag_right_open_hour)
         in Inr (num_of_minutes + t1' + t2')))"

definition count_seconds :: "period \<Rightarrow> error + int" where
  "count_seconds self =
     (let t0 = tdata (initial_times self); t1 = tdata (final_times self);
          flag_left_open = (left_open self \<and> second t0 = 59);
          flag_right_open = (right_open self \<and> second t1 = 0)
      in ebind (count_minutes self) (\<lambda>minutes.
         let num_of_seconds = minutes * 60;
             t1' = - (second t0 + of_bool (left_open self)) * of_bool (\<not> flag_left_open);
             t2' = - (59 - second t1 + of_bool (right_open self)) * of_bool (\<not> flag_right_open)
         in Inr (num_of_seconds + t1' + t2')))"

text \<open>
  \<^verbatim>\<open>MultiPeriod.len(units)\<close>: the unit is a name or an index 0 to 5. The divisions are by
  floating-point constants; the quotient is modelled as the exact real number. An unknown unit
  falls through every branch and the method returns \<^verbatim>\<open>None\<close>.
\<close>

datatype units = UnitName string | UnitIndex int

definition period_len :: "period \<Rightarrow> units \<Rightarrow> error + real option" where
  "period_len self u =
     (if u = UnitName ''seconds'' \<or> u = UnitIndex 5
      then ebind (count_seconds self) (\<lambda>n. Inr (Some (real_of_int n)))
      else if u = UnitName ''minutes'' \<or> u = UnitIndex 4
      then ebind (count_seconds self) (\<lambda>n. Inr (Some (real_of_int n / 60)))
      else if u = UnitName ''hours'' \<or> u = UnitIndex 3
      then ebind (count_seconds self) (\<lambda>n. Inr (Some (real_of_int n / 360)))
      else if u = UnitName ''days'' \<or> u = UnitIndex 2
      then ebind (count_seconds self) (\<lambda>n. Inr (Some (real_of_int n / 86400)))
      else if u \<in> {UnitName ''cycles'', UnitName ''months''} \<or> u = UnitIndex 1
      then ebind (MultiDate_count_days_in_cycle (period_date self (initial_times self)))
             (\<lambda>days_in_cycle_count.
           ebind (MultiDate_count_days_in_cycle (period_date self (final_times self))) (\<lambda>_.
           ebind (count_seconds self) (\<lambda>n.
           Inr (Some (real_of_int n / (86400 * real_of_int days_in_cycle_count))))))
      else if u = UnitName ''years'' \<or> u = UnitIndex 0
      then ebind (MultiDate_count_days_in_year (period_date self (initial_times self)))
             (\<lambda>days_in_year.
           ebind (MultiDate_count_days_in_year (period_date self (final_times self))) (\<lambda>_.
           ebind (count_seconds self) (\<lambda>n.
           Inr (Some (real_of_int n / (86400 * real_of_int days_in_year))))))
      else Inr None)"

section \<open>Shared buffers\<close>

text \<open>
  A numpy array is a reference to a buffer, and the methods above write into the buffer of
  \<^verbatim>\<open>self.times\<close>. Whether an operation leaves its operand alone depends on which objects
  share a buffer, so this section keeps the buffers in a store and a date as a reference:

  \<^item> \<^verbatim>\<open>Date(list, calendar)\<close> builds its array from the list: a new buffer.
  \<^item> \<^verbatim>\<open>MultiDate(self.times, self.calendars)\<close>, the first statement of
    \<^verbatim>\<open>MultiDate.__add__\<close>, passes a masked array: \<^verbatim>\<open>_conversion_to_ma\<close> returns it
    untouched, its shape is already (1, 6), and \<^verbatim>\<open>ma.array(self.times, dtype=myint)\<close> makes
    no copy of an array that already has this type (numpy's \<^verbatim>\<open>copy=False\<close>). The time
    vector of an integer date has this type, so the new date refers to the buffer of the
    operand.
  \<^item> every \<^verbatim>\<open>add_*\<close> method assigns into \<^verbatim>\<open>self.times[..., i]\<close>: it writes the buffer.

  References are only created by allocation; the store is total so that reading needs no
  side condition.
\<close>

record store =
  cells :: "nat \<Rightarrow> collection_time"
  next_free :: nat

record date_ref =
  times_at :: nat
  calendar_of :: calendar

definition deref :: "store \<Rightarrow> date_ref \<Rightarrow> date" where
  "deref st r = \<lparr>tdata = tdata (cells st (times_at r)), tmask = tmask (cells st (times_at r)),
                 calendar = calendar_of r\<rparr>"

definition Date_ref :: "store \<Rightarrow> int option list \<Rightarrow> calendar \<Rightarrow> error + store \<times> date_ref" where
  "Date_ref st time cal =
     ebind (Date time cal) (\<lambda>d.
     Inr (st\<lparr>cells := (cells st)(next_free st := times_of d), next_free := Suc (next_free st)\<rparr>,
          \<lparr>times_at = next_free st, calendar_of = cal\<rparr>))"

text \<open>A method that changes \<^verbatim>\<open>self.times\<close> in place, run on the buffer a reference points to.\<close>

definition in_place :: "date_ref \<Rightarrow> (date \<Rightarrow> (error + date) option) \<Rightarrow> store \<Rightarrow> (error + store) option" where
  "in_place r f st =
     obind (f (deref st r)) (\<lambda>d.
     Some (Inr (st\<lparr>cells := (cells st)(times_at r := times_of d)\<rparr>)))"

definition MultiDate_add_ref ::
  "store \<Rightarrow> date_ref \<Rightarrow> int six \<Rightarrow> (error + store \<times> date_ref) option" where
  "MultiDate_add_ref st self multideltat =
     (let new_mdate = \<lparr>times_at = times_at self, calendar_of = calendar_of self\<rparr> in
      obind (in_place new_mdate (\<lambda>d. Some (Date_of_times (times_of d) (calendar d))) st) (\<lambda>st.
      obind (in_place new_mdate (\<lambda>d. Some (Inr (add_years d (year multideltat)))) st) (\<lambda>st.
      obind (in_place new_mdate (\<lambda>d. add_cycles d (cycle multideltat)) st) (\<lambda>st.
      obind (in_place new_mdate (\<lambda>d. add_days d (day multideltat)) st) (\<lambda>st.
      obind (in_place new_mdate (\<lambda>d. add_hours d (hour multideltat)) st) (\<lambda>st.
      obind (in_place new_mdate (\<lambda>d. add_minutes d (minute multideltat)) st) (\<lambda>st.
      obind (in_place new_mdate (\<lambda>d. add_seconds d (second multideltat)) st) (\<lambda>st.
      Some (Inr (st, new_mdate))))))))))"

definition empty_store :: store where
  "empty_store = \<lparr>cells = (\<lambda>_. \<lparr>tdata = \<lparr>year = 0, cycle = 0, day = 0, hour = 0, minute = 0,
                                           second = 0\<rparr>, tmask = unmasked\<rparr>),
                  next_free = 0\<rparr>"

section \<open>Notions used to state the properties\<close>

text \<open>
  The leap-year rule in the words of the specification: divisible by 4, and not by 100 unless
  also by 400.
\<close>

definition spec_leap_rule :: "int \<Rightarrow> bool" where
  "spec_leap_rule y \<longleftrightarrow> 4 dvd y \<and> (\<not> 100 dvd y \<or> 400 dvd y)"

text \<open>
  What the class \<^verbatim>\<open>Calendar\<close> asks of a calendar definition, for one cycle and for all
  cycles of one year: the list of days is there, not empty, without repetition, and no day
  value is negative.
\<close>

definition wf_cycle :: "calendar \<Rightarrow> int \<Rightarrow> int \<Rightarrow> bool" where
  "wf_cycle cal yr c \<longleftrightarrow>
     (case days_in_cycle cal c yr of
        Inl e \<Rightarrow> False
      | Inr ds \<Rightarrow> ds \<noteq> [] \<and> distinct ds \<and> list_all (\<lambda>d. 0 \<le> d) ds)"

definition wf_year :: "calendar \<Rightarrow> int \<Rightarrow> bool" where
  "wf_year cal yr \<longleftrightarrow> list_all (wf_cycle cal yr) [1..count_cycles_in_year cal yr]"

text \<open>
  A valid date: every slot is set and passes the checks of the constructor. These are the
  dates the constructor returns for a time vector with a year (lemmas
  \<open>Date_of_times_valid\<close> and \<open>Date_of_times_valid_date\<close> below).
\<close>

definition valid_date :: "date \<Rightarrow> bool" where
  "valid_date d \<longleftrightarrow>
     tmask d = unmasked \<and>
     1 \<le> cycle (tdata d) \<and> cycle (tdata d) \<le> count_cycles_in_year (calendar d) (year (tdata d)) \<and>
     (case days_in_cycle (calendar d) (cycle (tdata d)) (year (tdata d)) of
        Inl e \<Rightarrow> False
      | Inr ds \<Rightarrow> day (tdata d) \<in> set ds) \<and>
     0 \<le> day (tdata d) \<and>
     0 \<le> hour (tdata d) \<and> hour (tdata d) < 24 \<and>
     0 \<le> minute (tdata d) \<and> minute (tdata d) < 60 \<and>
     0 \<le> second (tdata d) \<and> second (tdata d) < 60"

text \<open>The days of one cycle, and the number of days of a year before a cycle.\<close>

definition cycle_days :: "calendar \<Rightarrow> int \<Rightarrow> int \<Rightarrow> int list" where
  "cycle_days cal yr c = (case days_in_cycle cal c yr of Inl e \<Rightarrow> [] | Inr ds \<Rightarrow> ds)"

definition days_before :: "calendar \<Rightarrow> int \<Rightarrow> int \<Rightarrow> int" where
  "days_before cal yr c = sum_list (map (\<lambda>i. int (length (cycle_days cal yr i))) [1..c - 1])"

text \<open>
  The last day of a month, in a leap year or not. The leap years of the built-in Gregorian
  calendar as the day tables give them (Julian up to 1582, Gregorian after), and the last
  day of each of its months outside October 1582.
\<close>

definition month_last :: "bool \<Rightarrow> int \<Rightarrow> int" where
  "month_last leap m =
     [31, if leap then 29 else 28, 31, 30, 31, 30, 31, 31, 30, 31, 30, 31] ! nat (m - 1)"

definition greg_leap :: "int \<Rightarrow> bool" where
  "greg_leap y \<longleftrightarrow> (if y > 1582 then spec_leap_rule y else 4 dvd y)"

definition greg_last :: "int \<Rightarrow> int \<Rightarrow> int" where
  "greg_last m y = month_last (greg_leap y) m"

text \<open>A date whose six slots are values of the 64-bit integer array that holds them.\<close>

definition int64_date :: "date \<Rightarrow> bool" where
  "int64_date d \<longleftrightarrow>
     int64 (year (tdata d)) \<and> int64 (cycle (tdata d)) \<and> int64 (day (tdata d)) \<and>
     int64 (hour (tdata d)) \<and> int64 (minute (tdata d)) \<and> int64 (second (tdata d))"

text \<open>One row of a collection, read as a date of a calendar.\<close>

definition row_date :: "calendar \<Rightarrow> collection_time \<Rightarrow> date" where
  "row_date cal r = \<lparr>tdata = tdata r, tmask = tmask r, calendar = cal\<rparr>"

text \<open>The lexicographic order of the six slots, year first.\<close>

definition slots :: "int six \<Rightarrow> int list" where
  "slots t = [year t, cycle t, day t, hour t, minute t, second t]"

fun lex_less :: "int list \<Rightarrow> int list \<Rightarrow> bool" where
  "lex_less (x # xs) (y # ys) = (x < y \<or> (x = y \<and> lex_less xs ys))"
| "lex_less xs ys = False"

section \<open>Integers that are floats\<close>

lemma is_float64_small: "\<bar>v\<bar> \<le> 2 ^ 53 \<Longrightarrow> is_float64 v"
proof (cases "\<bar>v\<bar> < 2 ^ 53")
  case True
  then have "2 ^ 0 dvd v \<and> \<bar>v\<bar> < 2 ^ (0 + 53)" by simp
  moreover have "(0::nat) \<in> set [0..<972]" by simp
  ultimately show ?thesis unfolding is_float64_def list_ex_iff by blast
next
  case False
  assume "\<bar>v\<bar> \<le> 2 ^ 53"
  with False have "\<bar>v\<bar> = 2 ^ 53" by simp
  then have "v = 2 ^ 53 \<or> v = - (2 ^ 53)" by linarith
  then have "2 ^ 1 dvd v \<and> \<bar>v\<bar> < 2 ^ (1 + 53)" by auto
  moreover have "(1::nat) \<in> set [0..<972]" by simp
  ultimately show ?thesis unfolding is_float64_def list_ex_iff by blast
qed

lemma is_float64_odd: "odd v \<Longrightarrow> is_float64 v \<longleftrightarrow> \<bar>v\<bar> < 2 ^ 53"
proof
  assume o: "odd v" and "is_float64 v"
  then obtain e where e: "2 ^ e dvd v" "\<bar>v\<bar> < 2 ^ (e + 53)"
    unfolding is_float64_def list_ex_iff by blast
  have "e = 0"
  proof (rule ccontr)
    assume "e \<noteq> 0"
    then have "(2::int) dvd 2 ^ e" by simp
    with e(1) have "2 dvd v" by (blast intro: dvd_trans)
    with o show False by simp
  qed
  with e(2) show "\<bar>v\<bar> < 2 ^ 53" by simp
next
  assume "\<bar>v\<bar> < 2 ^ 53"
  then show "is_float64 v" by (intro is_float64_small) simp
qed

lemma is_float64_not_overflow:
  assumes "is_float64 v"
  shows "\<not> float_overflows v"
proof -
  from assms obtain e where e: "e < 972" "2 ^ e dvd v" "\<bar>v\<bar> < 2 ^ (e + 53)"
    unfolding is_float64_def list_ex_iff by auto
  from e(1) have "e + 53 \<le> 1024" by simp
  then have "(2::int) ^ (e + 53) \<le> 2 ^ 1024" by (intro power_increasing) simp_all
  with e(3) have lt: "\<bar>v\<bar> < 2 ^ 1024" by linarith
  from e(2) have d: "2 ^ e dvd \<bar>v\<bar>" by simp
  then obtain k where k: "\<bar>v\<bar> = 2 ^ e * k" by (auto simp: dvd_def)
  have kp: "k < 2 ^ 53"
  proof (rule ccontr)
    assume "\<not> k < 2 ^ 53"
    then have "(2::int) ^ 53 \<le> k" by simp
    then have "(2::int) ^ e * 2 ^ 53 \<le> 2 ^ e * k" by (intro mult_left_mono) simp_all
    with e(3) k show False by (simp add: power_add)
  qed
  then have "k \<le> 2 ^ 53 - 1" by simp
  then have "2 ^ e * k \<le> 2 ^ e * (2 ^ 53 - 1)" by (intro mult_left_mono) simp_all
  also have "\<dots> = 2 ^ (e + 53) - 2 ^ e" by (simp add: power_add algebra_simps)
  finally have b: "\<bar>v\<bar> \<le> 2 ^ (e + 53) - 2 ^ e" using k by simp
  have "(2::int) ^ (e + 53) - 2 ^ e \<le> 2 ^ 1024 - 2 ^ 971"
  proof -
    have "(2::int) ^ e * (2 ^ 53 - 1) \<le> 2 ^ 971 * (2 ^ 53 - 1)"
      using e(1) by (intro mult_right_mono power_increasing) simp_all
    then show ?thesis by (simp add: power_add algebra_simps)
  qed
  with b have "\<bar>v\<bar> \<le> 2 ^ 1024 - 2 ^ 971" by linarith
  moreover have "(2::int) ^ 1024 - 2 ^ 971 < 2 ^ 1024 - 2 ^ 970" by simp
  ultimately show ?thesis unfolding float_overflows_def by linarith
qed

lemma float_int_ok: "is_float64 v \<Longrightarrow> float_int what v = Inr v"
  by (simp add: float_int_def is_float64_not_overflow)

lemma float_int_month [simp]: "1 \<le> m \<Longrightarrow> m \<le> 12 \<Longrightarrow> float_int what m = Inr m"
  by (intro float_int_ok is_float64_small) simp

lemma float_int_not_float:
  "\<not> is_float64 v \<Longrightarrow> \<not> float_overflows v \<Longrightarrow>
     float_int what v = Inl (TimelyError (what @ '' value is not an integer.''))"
  by (simp add: float_int_def)

lemma int64_small: "\<bar>v\<bar> \<le> 2 ^ 53 \<Longrightarrow> int64 v"
  unfolding int64_def by simp linarith

text \<open>Both hold of the numbers written in a proof.\<close>

lemma is_float64_bounds [simp]: "- (2 ^ 53) \<le> v \<Longrightarrow> v \<le> 2 ^ 53 \<Longrightarrow> is_float64 v"
  by (intro is_float64_small) simp

lemma int64_bounds [simp]: "- (2 ^ 63) \<le> v \<Longrightarrow> v < 2 ^ 63 \<Longrightarrow> int64 v"
  by (simp add: int64_def)

lemma ebind_simps [simp]: "ebind (Inr v) f = f v" "ebind (Inl e) f = Inl e"
  by (simp_all add: ebind_def)

lemma obind_simps [simp]:
  "obind None f = None" "obind (Some (Inl e)) f = Some (Inl e)" "obind (Some (Inr v)) f = f v"
  by (simp_all add: obind_def)

lemma ebind_eq_Inr: "ebind m f = Inr v \<longleftrightarrow> (\<exists>x. m = Inr x \<and> f x = Inr v)"
  by (cases m) auto

lemma py_get_nth: "0 \<le> i \<Longrightarrow> i < int (length xs) \<Longrightarrow> py_get xs i = Inr (xs ! nat i)"
  by (simp add: py_get_def)

lemma py_get_0: "xs \<noteq> [] \<Longrightarrow> py_get xs 0 = Inr (hd xs)"
  by (cases xs) (simp_all add: py_get_def)

lemma py_get_last: "xs \<noteq> [] \<Longrightarrow> py_get xs (- 1) = Inr (last xs)"
  by (cases xs rule: rev_cases) (auto simp: py_get_def nth_append)

lemma py_index_Inr: "py_index xs v = Inr i \<Longrightarrow> 0 \<le> i \<and> i < int (length xs) \<and> xs ! nat i = v"
proof (induction xs arbitrary: i)
  case Nil
  then show ?case by simp
next
  case (Cons x xs)
  show ?case
  proof (cases "x = v")
    case True
    with Cons.prems show ?thesis by auto
  next
    case False
    with Cons.prems obtain j where j: "py_index xs v = Inr j" "i = j + 1"
      by (auto split: sum.splits)
    from Cons.IH[OF j(1)] j(2) show ?thesis
      by (auto simp: nat_add_distrib)
  qed
qed

lemma py_index_Inr_mem:
  assumes "py_index xs v = Inr i"
  shows "v \<in> set xs"
proof -
  from py_index_Inr[OF assms] have "nat i < length xs" "xs ! nat i = v" by auto
  then show ?thesis by (metis nth_mem)
qed

lemma py_index_mem: "v \<in> set xs \<Longrightarrow> \<exists>i. py_index xs v = Inr i"
  by (induction xs) auto

lemma py_index_Inl: "py_index xs v = Inl e \<Longrightarrow> v \<notin> set xs"
  using py_index_mem by fastforce

lemma py_index_nth: "distinct xs \<Longrightarrow> k < length xs \<Longrightarrow> py_index xs (xs ! k) = Inr (int k)"
proof (induction xs arbitrary: k)
  case Nil
  then show ?case by simp
next
  case (Cons x xs)
  show ?case
  proof (cases k)
    case 0
    then show ?thesis by simp
  next
    case (Suc j)
    with Cons.prems have "xs ! j \<noteq> x" "j < length xs" "distinct xs"
      by auto
    with Cons.IH[of j] Suc show ?thesis by auto
  qed
qed

lemma py_index_hd: "xs \<noteq> [] \<Longrightarrow> py_index xs (hd xs) = Inr 0"
  by (cases xs) simp_all

text \<open>Updates of the slots of a time vector, brought into the order year, cycle, day.\<close>

lemma six_update_order:
  "r\<lparr>cycle := a, year := b\<rparr> = r\<lparr>year := b, cycle := a\<rparr>"
  "r\<lparr>day := c, year := b\<rparr> = r\<lparr>year := b, day := c\<rparr>"
  "r\<lparr>day := c, cycle := a\<rparr> = r\<lparr>cycle := a, day := c\<rparr>"
  by simp_all

lemma map_rows_single: "map_rows f [r] = ebind (f r) (\<lambda>y. Inr [y])"
  by (cases "f r") simp_all

lemma wf_yearD:
  assumes "wf_year cal yr" "1 \<le> c" "c \<le> count_cycles_in_year cal yr"
  obtains ds where "days_in_cycle cal c yr = Inr ds" "ds \<noteq> []" "distinct ds" "\<forall>d\<in>set ds. 0 \<le> d"
proof -
  from assms have "wf_cycle cal yr c" by (simp add: wf_year_def list_all_iff)
  then show ?thesis using that
    by (auto simp: wf_cycle_def list_all_iff split: sum.splits)
qed

lemma valid_date_days:
  assumes "valid_date d"
  obtains ds where "days_in_cycle (calendar d) (cycle (tdata d)) (year (tdata d)) = Inr ds"
    and "day (tdata d) \<in> set ds"
  using assms by (auto simp: valid_date_def split: sum.splits)

lemma Date_of_times_valid:
  assumes "valid_date d"
  shows "Date_of_times (times_of d) (calendar d) = Inr d"
proof -
  from assms obtain ds where ds: "days_in_cycle (calendar d) (cycle (tdata d)) (year (tdata d)) = Inr ds"
    "day (tdata d) \<in> set ds" by (rule valid_date_days)
  then have ne: "ds \<noteq> []" by auto
  from ds(2) obtain i where i: "py_index ds (day (tdata d)) = Inr i"
    using py_index_mem by blast
  from assms have m: "tmask d = unmasked" by (simp add: valid_date_def)
  show ?thesis
    using assms ds(1) i ne
    by (simp add: Date_of_times_def MultiDate_init_def map_rows_single times_of_def
        check_mask_order_def check_negative_def fill_cycle_def fill_day_def check_cycle_def
        check_day_def fill_hour_def fill_minute_def fill_second_def Let_def m unmasked_def
        valid_date_def py_get_0)
qed


lemma check_mask_order_Inr:
  assumes "check_mask_order r = Inr r'"
  shows "r' = r" and "cycle (tmask r) \<Longrightarrow> day (tmask r)" and "day (tmask r) \<Longrightarrow> hour (tmask r)"
    and "hour (tmask r) \<Longrightarrow> minute (tmask r)" and "minute (tmask r) \<Longrightarrow> second (tmask r)"
    and "year (tmask r) \<Longrightarrow> cycle (tmask r)"
  using assms by (auto simp: check_mask_order_def Let_def split: if_splits)

lemma check_negative_Inr:
  assumes "check_negative r = Inr r'"
  shows "r' = r" and "\<not> cycle (tmask r) \<Longrightarrow> 0 \<le> cycle (tdata r)"
    and "\<not> day (tmask r) \<Longrightarrow> 0 \<le> day (tdata r)"
    and "\<not> hour (tmask r) \<Longrightarrow> 0 \<le> hour (tdata r)"
    and "\<not> minute (tmask r) \<Longrightarrow> 0 \<le> minute (tdata r)"
    and "\<not> second (tmask r) \<Longrightarrow> 0 \<le> second (tdata r)"
  using assms by (auto simp: check_negative_def Let_def split: if_splits)

lemma fill_cycle_Inr:
  assumes "fill_cycle cal r = Inr (r', ds)"
  shows "tdata r' = (tdata r)\<lparr>cycle := (if cycle (tmask r) then 1 else cycle (tdata r))\<rparr>"
    and "tmask r' = (tmask r)\<lparr>cycle := False\<rparr>"
    and "days_in_cycle cal (cycle (tdata r')) (year (tdata r')) = Inr ds"
  using assms by (auto simp: fill_cycle_def Let_def ebind_eq_Inr split: if_splits)

lemma fill_day_Inr:
  assumes "fill_day (r, ds) = Inr (r', ds')"
  shows "ds' = ds" and "ds \<noteq> []"
    and "tdata r' = (tdata r)\<lparr>day := (if day (tmask r) then hd ds else day (tdata r))\<rparr>"
    and "tmask r' = (tmask r)\<lparr>day := (day (tmask r) \<and> year (tmask r))\<rparr>"
  using assms
  by (cases ds; auto simp: fill_day_def Let_def ebind_eq_Inr py_get_def split: if_splits)+

lemma check_cycle_Inr:
  assumes "check_cycle cal (r, ds) = Inr (r', ds')"
  shows "r' = r" and "ds' = ds"
    and "\<not> year (tmask r) \<Longrightarrow> 1 \<le> cycle (tdata r) \<and> cycle (tdata r) \<le> count_cycles_in_year cal (year (tdata r))"
  using assms by (auto simp: check_cycle_def Let_def split: if_splits)

lemma check_day_Inr:
  assumes "check_day (r, ds) = Inr r'"
  shows "r' = r" and "day (tdata r) \<in> set ds"
  using assms
  by (auto simp: check_day_def split: sum.splits dest: py_index_Inr_mem)

lemma fill_hour_Inr:
  assumes "fill_hour r = Inr r'"
  shows "tdata r' = (tdata r)\<lparr>hour := (if hour (tmask r) then 0 else hour (tdata r))\<rparr>"
    and "tmask r' = (tmask r)\<lparr>hour := False\<rparr>" and "hour (tdata r') < 24"
  using assms by (auto simp: fill_hour_def Let_def split: if_splits)

lemma fill_minute_Inr:
  assumes "fill_minute r = Inr r'"
  shows "tdata r' = (tdata r)\<lparr>minute := (if minute (tmask r) then 0 else minute (tdata r))\<rparr>"
    and "tmask r' = (tmask r)\<lparr>minute := False\<rparr>" and "minute (tdata r') < 60"
  using assms by (auto simp: fill_minute_def Let_def split: if_splits)

lemma fill_second_Inr:
  assumes "fill_second r = Inr r'"
  shows "tdata r' = (tdata r)\<lparr>second := (if second (tmask r) then 0 else second (tdata r))\<rparr>"
    and "tmask r' = (tmask r)\<lparr>second := False\<rparr>" and "second (tdata r') < 60"
  using assms by (auto simp: fill_second_def Let_def split: if_splits)

text \<open>The stages of the constructor on one row, made explicit.\<close>

lemma MultiDate_init_single:
  "MultiDate_init [r] cal =
     ebind (check_mask_order r) (\<lambda>r.
     ebind (check_negative r) (\<lambda>r.
     ebind (fill_cycle cal r) (\<lambda>rd.
     ebind (fill_day rd) (\<lambda>rd.
     ebind (check_cycle cal rd) (\<lambda>rd.
     ebind (check_day rd) (\<lambda>r.
     ebind (fill_hour r) (\<lambda>r.
     ebind (fill_minute r) (\<lambda>r.
     ebind (fill_second r) (\<lambda>r. Inr [r])))))))))"
  by (simp add: MultiDate_init_def ebind_def split: sum.splits)

lemma MultiDate_init_single_Inr:
  assumes "MultiDate_init [r] cal = Inr rows"
  obtains r3 ds r4 r7 r8 r9 where
    "check_mask_order r = Inr r" "check_negative r = Inr r"
    "fill_cycle cal r = Inr (r3, ds)" "fill_day (r3, ds) = Inr (r4, ds)"
    "check_cycle cal (r4, ds) = Inr (r4, ds)" "check_day (r4, ds) = Inr r4"
    "fill_hour r4 = Inr r7" "fill_minute r7 = Inr r8" "fill_second r8 = Inr r9" "rows = [r9]"
proof -
  note a = assms[unfolded MultiDate_init_single]
  from a obtain r1 where 1: "check_mask_order r = Inr r1"
    by (auto simp: ebind_eq_Inr)
  then have r1: "r1 = r" by (rule check_mask_order_Inr)
  from a 1 obtain r2 where 2: "check_negative r1 = Inr r2"
    by (auto simp: ebind_eq_Inr)
  then have r2: "r2 = r1" by (rule check_negative_Inr)
  from a 1 2 obtain r3 ds where 3: "fill_cycle cal r2 = Inr (r3, ds)"
    by (auto simp: ebind_eq_Inr)
  from a 1 2 3 obtain r4 ds4 where 4: "fill_day (r3, ds) = Inr (r4, ds4)"
    by (auto simp: ebind_eq_Inr)
  then have ds4: "ds4 = ds" by (rule fill_day_Inr)
  from a 1 2 3 4 obtain r5 ds5 where 5: "check_cycle cal (r4, ds4) = Inr (r5, ds5)"
    by (auto simp: ebind_eq_Inr)
  then have r5: "r5 = r4" "ds5 = ds4" by (auto dest: check_cycle_Inr)
  from a 1 2 3 4 5 obtain r6 where 6: "check_day (r5, ds5) = Inr r6"
    by (auto simp: ebind_eq_Inr)
  then have r6: "r6 = r5" by (rule check_day_Inr)
  from a 1 2 3 4 5 6 obtain r7 where 7: "fill_hour r6 = Inr r7"
    by (auto simp: ebind_eq_Inr)
  from a 1 2 3 4 5 6 7 obtain r8 where 8: "fill_minute r7 = Inr r8"
    by (auto simp: ebind_eq_Inr)
  from a 1 2 3 4 5 6 7 8 obtain r9 where 9: "fill_second r8 = Inr r9" "rows = [r9]"
    by (auto simp: ebind_eq_Inr)
  show ?thesis
    using that[of r3 ds r4 r7 r8 r9] 1 2 3 4 5 6 7 8 9 r1 r2 ds4 r5 r6 by simp
qed


lemma Date_of_times_Inr:
  assumes "Date_of_times r cal = Inr d" and y: "\<not> year (tmask r)"
  shows Date_of_times_calendar: "calendar d = cal"
    and Date_of_times_unmasked: "tmask d = unmasked"
    and Date_of_times_year: "year (tdata d) = year (tdata r)"
    and Date_of_times_cycle: "cycle (tdata d) = (if cycle (tmask r) then 1 else cycle (tdata r))"
    and Date_of_times_day: "\<exists>ds. days_in_cycle cal (cycle (tdata d)) (year (tdata d)) = Inr ds
          \<and> day (tdata d) \<in> set ds
          \<and> day (tdata d) = (if day (tmask r) then hd ds else day (tdata r))"
    and Date_of_times_hour: "hour (tdata d) = (if hour (tmask r) then 0 else hour (tdata r))"
    and Date_of_times_minute: "minute (tdata d) = (if minute (tmask r) then 0 else minute (tdata r))"
    and Date_of_times_second: "second (tdata d) = (if second (tmask r) then 0 else second (tdata r))"
    and Date_of_times_range:
      "1 \<le> cycle (tdata d) \<and> cycle (tdata d) \<le> count_cycles_in_year cal (year (tdata d))
       \<and> 0 \<le> hour (tdata d) \<and> hour (tdata d) < 24 \<and> 0 \<le> minute (tdata d) \<and> minute (tdata d) < 60
       \<and> 0 \<le> second (tdata d) \<and> second (tdata d) < 60 \<and> (\<not> day (tmask r) \<longrightarrow> 0 \<le> day (tdata d))"
proof -
  from assms(1) obtain rows where rows: "MultiDate_init [r] cal = Inr rows"
    and d: "d = \<lparr>tdata = tdata (rows ! 0), tmask = tmask (rows ! 0), calendar = cal\<rparr>"
    by (auto simp: Date_of_times_def ebind_eq_Inr)
  from rows obtain r3 ds r4 r7 r8 r9 where s:
    "check_mask_order r = Inr r" "check_negative r = Inr r"
    "fill_cycle cal r = Inr (r3, ds)" "fill_day (r3, ds) = Inr (r4, ds)"
    "check_cycle cal (r4, ds) = Inr (r4, ds)" "check_day (r4, ds) = Inr r4"
    "fill_hour r4 = Inr r7" "fill_minute r7 = Inr r8" "fill_second r8 = Inr r9" "rows = [r9]"
    by (rule MultiDate_init_single_Inr)
  note n = check_negative_Inr(2-)[OF s(2)]
  note c = fill_cycle_Inr(1,2)[OF s(3)]
  note c3 = fill_cycle_Inr(3)[OF s(3)]
  note f = fill_day_Inr(3,4)[OF s(4)]
  note cc = check_cycle_Inr(3)[OF s(5)]
  note cd = check_day_Inr(2)[OF s(6)]
  note h = fill_hour_Inr[OF s(7)]
  note mi = fill_minute_Inr[OF s(8)]
  note se = fill_second_Inr[OF s(9)]
  show "calendar d = cal" using d by simp
  have td: "tdata d = tdata r9" "tmask d = tmask r9" using d s(10) by simp_all
  show mask: "tmask d = unmasked"
    using y by (simp add: td se(1,2) mi(1,2) h(1,2) f c unmasked_def)
  show yr: "year (tdata d) = year (tdata r)"
    by (simp add: td se(1) mi(1) h(1) f c)
  have yr4: "year (tdata r4) = year (tdata r)" "year (tdata r3) = year (tdata r)"
    by (simp_all add: f c)
  have cy: "cycle (tdata d) = cycle (tdata r4)" "cycle (tdata r4) = cycle (tdata r3)"
    by (simp_all add: td se(1) mi(1) h(1) f)
  show cyv: "cycle (tdata d) = (if cycle (tmask r) then 1 else cycle (tdata r))"
    by (simp add: cy c)
  have dy: "day (tdata d) = day (tdata r4)"
    by (simp add: td se(1) mi(1) h(1))
  have y4: "\<not> year (tmask r4)" using y by (simp add: f c)
  have cyc: "1 \<le> cycle (tdata d) \<and> cycle (tdata d) \<le> count_cycles_in_year cal (year (tdata d))"
    using cc[OF y4] by (simp add: cy yr yr4)
  have days: "days_in_cycle cal (cycle (tdata d)) (year (tdata d)) = Inr ds"
    using c3 by (simp add: cy yr yr4)
  have day_in: "day (tdata d) \<in> set ds" using cd by (simp add: dy)
  have dyv: "day (tdata d) = (if day (tmask r) then hd ds else day (tdata r))"
    by (simp add: dy f c)
  show "\<exists>ds. days_in_cycle cal (cycle (tdata d)) (year (tdata d)) = Inr ds
          \<and> day (tdata d) \<in> set ds
          \<and> day (tdata d) = (if day (tmask r) then hd ds else day (tdata r))"
    using days day_in dyv by blast
  show hr: "hour (tdata d) = (if hour (tmask r) then 0 else hour (tdata r))"
    by (simp add: td se(1) mi(1) h(1) f c)
  show mn: "minute (tdata d) = (if minute (tmask r) then 0 else minute (tdata r))"
    by (simp add: td se(1) mi(1) h(1,2) f c)
  show sc: "second (tdata d) = (if second (tmask r) then 0 else second (tdata r))"
    by (simp add: td se(1) mi(1,2) h(1,2) f c)
  have "hour (tdata d) < 24" using h(3) by (simp add: td se(1) mi(1))
  moreover have "minute (tdata d) < 60" using mi(3) by (simp add: td se(1))
  moreover have "second (tdata d) < 60" using se(3) by (simp add: td)
  moreover have "0 \<le> hour (tdata d)" using n(3) by (simp add: hr)
  moreover have "0 \<le> minute (tdata d)" using n(4) by (simp add: mn)
  moreover have "0 \<le> second (tdata d)" using n(5) by (simp add: sc)
  moreover have "\<not> day (tmask r) \<longrightarrow> 0 \<le> day (tdata d)" using n(2) by (simp add: dyv)
  ultimately show "1 \<le> cycle (tdata d) \<and> cycle (tdata d) \<le> count_cycles_in_year cal (year (tdata d))
       \<and> 0 \<le> hour (tdata d) \<and> hour (tdata d) < 24 \<and> 0 \<le> minute (tdata d) \<and> minute (tdata d) < 60
       \<and> 0 \<le> second (tdata d) \<and> second (tdata d) < 60 \<and> (\<not> day (tmask r) \<longrightarrow> 0 \<le> day (tdata d))"
    using cyc by simp
qed

lemma Date_of_times_valid_date:
  assumes "Date_of_times r cal = Inr d" and "\<not> year (tmask r)" and "wf_year cal (year (tdata r))"
  shows "valid_date d"
proof -
  note a = assms(1,2)
  from Date_of_times_day[OF a] obtain ds where
    ds: "days_in_cycle cal (cycle (tdata d)) (year (tdata d)) = Inr ds" "day (tdata d) \<in> set ds"
    by blast
  note r = Date_of_times_range[OF a]
  from r have c: "1 \<le> cycle (tdata d)" "cycle (tdata d) \<le> count_cycles_in_year cal (year (tdata r))"
    by (simp_all add: Date_of_times_year[OF a])
  from wf_yearD[OF assms(3) c] ds(1) have "\<forall>x\<in>set ds. 0 \<le> x"
    by (auto simp: Date_of_times_year[OF a])
  with ds(2) have "0 \<le> day (tdata d)" by blast
  then show ?thesis
    using r ds by (simp add: valid_date_def Date_of_times_unmasked[OF a] Date_of_times_calendar[OF a])
qed

section \<open>The built-in calendars with months\<close>

lemma upto_1_12: "[1..12::int] = [1, 2, 3, 4, 5, 6, 7, 8, 9, 10, 11, 12]"
  by (simp add: upto.simps)

lemma month_cases:
  assumes "1 \<le> (m::int)" "m \<le> 12"
  obtains "m = 1" | "m = 2" | "m = 3" | "m = 4" | "m = 5" | "m = 6" | "m = 7" | "m = 8"
    | "m = 9" | "m = 10" | "m = 11" | "m = 12"
proof -
  from assms have "m \<in> set [1..12]" by simp
  then have "m \<in> set [1, 2, 3, 4, 5, 6, 7, 8, 9, 10, 11, 12::int]"
    by (simp only: upto_1_12)
  then show thesis using that by auto
qed

lemma month_last_pos: "1 \<le> m \<Longrightarrow> m \<le> 12 \<Longrightarrow> 28 \<le> month_last lp m \<and> month_last lp m \<le> 31"
  by (erule (1) month_cases) (simp_all add: month_last_def)

lemma days_in_month_365_eq:
  assumes "1 \<le> m" "m \<le> 12"
  shows "days_in_month_365 m y = Inr [1..month_last False m]"
  using assms
  by (rule month_cases) (simp_all add: days_in_month_365_def month_last_def)

lemma days_in_month_366_eq:
  assumes "1 \<le> m" "m \<le> 12"
  shows "days_in_month_366 m y = Inr [1..month_last True m]"
  using assms
  by (rule month_cases) (simp_all add: days_in_month_366_def month_last_def)

lemma month_last_cong: "m \<noteq> 2 \<Longrightarrow> month_last a m = month_last b m"
proof -
  assume "m \<noteq> 2"
  then have "nat (m - 1) \<noteq> Suc 0" by linarith
  then show ?thesis by (simp add: month_last_def nth_Cons split: nat.splits)
qed

lemma days_in_month_julian_eq:
  assumes "1 \<le> m" "m \<le> 12" "is_float64 y"
  shows "days_in_month_julian m y = Inr [1..month_last (4 dvd y) m]"
  using assms
  by (simp add: days_in_month_julian_def float_int_ok days_in_month_365_eq days_in_month_366_eq
      mod_eq_0_iff_dvd)

lemma days_in_month_proleptic_gregorian_eq:
  assumes "1 \<le> m" "m \<le> 12" "is_float64 y"
  shows "days_in_month_proleptic_gregorian m y = Inr [1..month_last (spec_leap_rule y) m]"
proof -
  have "100 dvd y \<Longrightarrow> 4 dvd y" by presburger
  then show ?thesis
    using assms
    by (auto simp: days_in_month_proleptic_gregorian_def float_int_ok days_in_month_365_eq
        days_in_month_julian_eq mod_eq_0_iff_dvd spec_leap_rule_def)
qed

lemma days_in_month_gregorian_eq:
  assumes "1 \<le> m" "m \<le> 12" "is_float64 y"
  shows "days_in_month_gregorian m y =
     Inr (if y = 1582 \<and> m = 10
          then [1, 2, 3, 4, 15, 16, 17, 18, 19, 20, 21, 22, 23, 24, 25, 26, 27, 28, 29, 30, 31]
          else [1..greg_last m y])"
proof -
  have a: "1582 < y \<Longrightarrow> month_last (spec_leap_rule y) m = greg_last m y"
    by (simp add: greg_last_def greg_leap_def)
  have b: "\<not> 1582 < y \<Longrightarrow> month_last (4 dvd y) m = greg_last m y"
    by (simp add: greg_last_def greg_leap_def)
  have c: "10 < m \<Longrightarrow> month_last (spec_leap_rule 1582) m = greg_last m 1582"
    unfolding greg_last_def by (rule month_last_cong) simp
  show ?thesis
    using assms a b c
    by (auto simp: days_in_month_gregorian_def float_int_ok
        days_in_month_proleptic_gregorian_eq days_in_month_julian_eq)
qed

section \<open>The built-in Gregorian calendar\<close>

lemma CalGregorian_sel [simp]:
  "year_cycles CalGregorian = months_of_gregorian_calendar"
  "days_in_cycle CalGregorian = days_in_month_gregorian"
  "fn_is_leap CalGregorian = Some is_leap_feb29"
  "cal_alias CalGregorian = ''gregorian''"
  by (simp_all add: CalGregorian_def)

lemma count_cycles_gregorian [simp]: "count_cycles_in_year CalGregorian y = 12"
  by (simp add: count_cycles_in_year_def months_of_gregorian_calendar_def)

lemma greg_last_pos: "1 \<le> m \<Longrightarrow> m \<le> 12 \<Longrightarrow> 28 \<le> greg_last m y \<and> greg_last m y \<le> 31"
  unfolding greg_last_def by (rule month_last_pos)

lemma wf_cycle_gregorian: "1 \<le> m \<Longrightarrow> m \<le> 12 \<Longrightarrow> is_float64 y \<Longrightarrow> wf_cycle CalGregorian y m"
  using greg_last_pos[of m y]
  by (simp add: wf_cycle_def days_in_month_gregorian_eq list_all_iff)

lemma wf_year_gregorian: "is_float64 y \<Longrightarrow> wf_year CalGregorian y"
  by (simp add: wf_year_def list_all_iff wf_cycle_gregorian)

lemma cycle_days_gregorian:
  "1 \<le> m \<Longrightarrow> m \<le> 12 \<Longrightarrow> is_float64 y \<Longrightarrow> cycle_days CalGregorian y m =
     (if y = 1582 \<and> m = 10
      then [1, 2, 3, 4, 15, 16, 17, 18, 19, 20, 21, 22, 23, 24, 25, 26, 27, 28, 29, 30, 31]
      else [1..greg_last m y])"
  by (simp add: cycle_days_def days_in_month_gregorian_eq)

lemma is_leap_gregorian: "is_float64 y \<Longrightarrow> is_leap CalGregorian y = Inr (greg_leap y)"
  by (simp add: is_leap_def is_leap_feb29_def days_in_month_gregorian_eq greg_last_def
      month_last_def py_get_last upto_rec2)

section \<open>Counting the days of a well-formed year\<close>

lemma wf_year_cycle:
  assumes "wf_year cal yr" "1 \<le> c" "c \<le> count_cycles_in_year cal yr"
  shows "days_in_cycle cal c yr = Inr (cycle_days cal yr c)"
    and "cycle_days cal yr c \<noteq> []" and "distinct (cycle_days cal yr c)"
    and "\<forall>d\<in>set (cycle_days cal yr c). 0 \<le> d"
proof -
  from assms obtain ds where ds: "days_in_cycle cal c yr = Inr ds" "ds \<noteq> []" "distinct ds"
    "\<forall>d\<in>set ds. 0 \<le> d" by (rule wf_yearD)
  then have "cycle_days cal yr c = ds" by (simp add: cycle_days_def)
  with ds show "days_in_cycle cal c yr = Inr (cycle_days cal yr c)"
    and "cycle_days cal yr c \<noteq> []" and "distinct (cycle_days cal yr c)"
    and "\<forall>d\<in>set (cycle_days cal yr c). 0 \<le> d" by simp_all
qed

lemma count_days_in_cycle_wf:
  assumes "wf_year cal yr" "1 \<le> c" "c \<le> count_cycles_in_year cal yr"
  shows "count_days_in_cycle cal c yr = Inr (int (length (cycle_days cal yr c)))"
  by (simp add: count_days_in_cycle_def wf_year_cycle(1)[OF assms])

lemma sum_days_in_cycles_wf:
  assumes "\<forall>c\<in>set cs. days_in_cycle cal c yr = Inr (cycle_days cal yr c)"
  shows "sum_days_in_cycles cal yr cs acc =
           Inr (acc + sum_list (map (\<lambda>i. int (length (cycle_days cal yr i))) cs))"
  using assms by (induction cs arbitrary: acc) simp_all

lemma days_before_1 [simp]: "days_before cal yr 1 = 0"
  by (simp add: days_before_def)

lemma days_before_Suc:
  "1 \<le> c \<Longrightarrow> days_before cal yr (c + 1) = days_before cal yr c + int (length (cycle_days cal yr c))"
  by (simp add: days_before_def upto_rec2)

lemma days_before_nonneg: "0 \<le> days_before cal yr c"
  by (auto simp: days_before_def intro!: sum_list_nonneg)

lemma days_before_mono:
  assumes "1 \<le> a" "a \<le> b"
  shows "days_before cal yr a \<le> days_before cal yr b"
proof (cases "a = b")
  case True
  then show ?thesis by simp
next
  case False
  with assms have "[1..b - 1] = [1..a - 1] @ [a..b - 1]"
    by (intro upto_split1) simp_all
  moreover have "0 \<le> sum_list (map (\<lambda>i. int (length (cycle_days cal yr i))) [a..b - 1])"
    by (auto intro!: sum_list_nonneg)
  ultimately show ?thesis
    by (simp add: days_before_def)
qed

lemma days_before_next:
  assumes "1 \<le> a" "a < b"
  shows "days_before cal yr a + int (length (cycle_days cal yr a)) \<le> days_before cal yr b"
  using days_before_mono[of "a + 1" b cal yr] assms by (simp add: days_before_Suc)

lemma count_days_in_year_wf:
  assumes "wf_year cal yr" "1 \<le> count_cycles_in_year cal yr"
  shows "count_days_in_year cal yr = Inr (days_before cal yr (count_cycles_in_year cal yr + 1))"
proof -
  have "\<forall>c\<in>set [1..count_cycles_in_year cal yr]. days_in_cycle cal c yr = Inr (cycle_days cal yr c)"
    using wf_year_cycle(1)[OF assms(1)] by simp
  then show ?thesis
    using wf_year_cycle(1)[OF assms(1), of 1] assms(2)
    by (simp add: count_days_in_year_def sum_days_in_cycles_wf days_before_def)
qed

lemma day_number_loop_wf:
  assumes "wf_year (calendar d) (year (tdata d))"
    and "cycle (tdata d) \<le> count_cycles_in_year (calendar d) (year (tdata d)) + 1"
    and "\<forall>i\<in>set cs. 1 \<le> i \<and> i < cycle (tdata d)"
  shows "day_number_loop d cs acc =
           Inr (acc + sum_list (map (\<lambda>i. int (length (cycle_days (calendar d) (year (tdata d)) i))) cs))"
  using assms(3)
proof (induction cs arbitrary: acc)
  case Nil
  then show ?case by simp
next
  case (Cons i cs)
  then have i: "1 \<le> i" "i < cycle (tdata d)" by simp_all
  then have le: "i \<le> count_cycles_in_year (calendar d) (year (tdata d))" using assms(2) by simp
  have "count_days_in_cycle (calendar d) i (year (tdata d))
         = Inr (int (length (cycle_days (calendar d) (year (tdata d)) i)))"
    using assms(1) i(1) le by (rule count_days_in_cycle_wf)
  then show ?case
    using Cons i le by (simp add: MultiDate_count_cycles_in_year_def Let_def)
qed

text \<open>The position of a valid date's day in its cycle.\<close>

lemma valid_date_index:
  assumes "valid_date d" "wf_year (calendar d) (year (tdata d))"
  obtains k where "k < length (cycle_days (calendar d) (year (tdata d)) (cycle (tdata d)))"
    and "cycle_days (calendar d) (year (tdata d)) (cycle (tdata d)) ! k = day (tdata d)"
    and "py_index (cycle_days (calendar d) (year (tdata d)) (cycle (tdata d))) (day (tdata d)) = Inr (int k)"
proof -
  let ?ds = "cycle_days (calendar d) (year (tdata d)) (cycle (tdata d))"
  from assms(1) have c: "1 \<le> cycle (tdata d)"
    "cycle (tdata d) \<le> count_cycles_in_year (calendar d) (year (tdata d))"
    by (simp_all add: valid_date_def)
  note w = wf_year_cycle[OF assms(2) c]
  from assms(1) w(1) have "day (tdata d) \<in> set ?ds" by (simp add: valid_date_def)
  then obtain k where k: "k < length ?ds" "?ds ! k = day (tdata d)"
    by (auto simp: in_set_conv_nth)
  with py_index_nth[OF w(3) k(1)] show thesis using that by simp
qed

lemma day_number_in_year_wf:
  assumes "valid_date d" "wf_year (calendar d) (year (tdata d))"
    and "py_index (cycle_days (calendar d) (year (tdata d)) (cycle (tdata d))) (day (tdata d)) = Inr k"
  shows "day_number_in_cycle d = Inr (k + 1)"
    and "day_number_in_year d = Inr (days_before (calendar d) (year (tdata d)) (cycle (tdata d)) + k + 1)"
proof -
  from assms(1) have c: "1 \<le> cycle (tdata d)"
    "cycle (tdata d) \<le> count_cycles_in_year (calendar d) (year (tdata d))"
    by (simp_all add: valid_date_def)
  note w = wf_year_cycle[OF assms(2) c]
  show 1: "day_number_in_cycle d = Inr (k + 1)"
    by (simp add: day_number_in_cycle_def w(1) assms(3))
  have "day_number_loop d [1..cycle (tdata d) - 1] 0 =
          Inr (days_before (calendar d) (year (tdata d)) (cycle (tdata d)))"
    using c by (simp add: day_number_loop_wf[OF assms(2)] days_before_def)
  then show "day_number_in_year d = Inr (days_before (calendar d) (year (tdata d)) (cycle (tdata d)) + k + 1)"
    by (simp add: day_number_in_year_def 1)
qed

lemma length_cycle_days_gregorian:
  "1 \<le> m \<Longrightarrow> m \<le> 12 \<Longrightarrow> is_float64 y \<Longrightarrow> int (length (cycle_days CalGregorian y m)) =
     (if y = 1582 \<and> m = 10 then 21 else greg_last m y)"
  using greg_last_pos[of m y] by (simp add: cycle_days_gregorian)

lemma days_before_gregorian_13:
  assumes "is_float64 y"
  shows "days_before CalGregorian y 13 =
           (if y = 1582 then 355 else if greg_leap y then 366 else 365)"
proof -
  have "\<not> greg_leap 1582" by (simp add: greg_leap_def)
  then show ?thesis
    using assms
    by (simp add: days_before_def upto_1_12 length_cycle_days_gregorian greg_last_def
        month_last_def)
qed

lemma count_days_in_year_gregorian:
  "is_float64 y \<Longrightarrow> count_days_in_year CalGregorian y =
     Inr (if y = 1582 then 355 else if greg_leap y then 366 else 365)"
  using count_days_in_year_wf[OF wf_year_gregorian, of y]
  by (simp add: days_before_gregorian_13)

text \<open>A year that is not a float is refused by the day tables of the Gregorian calendar.\<close>

lemma days_in_month_gregorian_refused:
  assumes "\<not> is_float64 y"
  shows "days_in_month_gregorian m y =
           (if float_overflows y then Inl OverflowError
            else Inl (TimelyError ''Year value is not an integer.''))"
  using assms by (simp add: days_in_month_gregorian_def float_int_def)

lemma is_leap_gregorian_refused:
  assumes "\<not> is_float64 y"
  shows "is_leap CalGregorian y =
           (if float_overflows y then Inl OverflowError
            else Inl (TimelyError ''Year value is not an integer.''))"
  using assms by (simp add: is_leap_def is_leap_feb29_def days_in_month_gregorian_refused)

lemma count_days_in_year_gregorian_refused:
  assumes "\<not> is_float64 y"
  shows "count_days_in_year CalGregorian y =
           (if float_overflows y then Inl OverflowError
            else Inl (TimelyError ''Year value is not an integer.''))"
  using assms by (simp add: count_days_in_year_def days_in_month_gregorian_refused)

lemma not_float_2_53_1: "\<not> is_float64 (2 ^ 53 + 1)" "\<not> float_overflows (2 ^ 53 + 1)"
proof -
  have "odd (2 ^ 53 + 1 :: int)" by simp
  from is_float64_odd[OF this] show "\<not> is_float64 (2 ^ 53 + 1)" by simp
  show "\<not> float_overflows (2 ^ 53 + 1)" by (simp add: float_overflows_def)
qed

text \<open>
  C3 (as amended). For every year that is a 64-bit float (every year up to \<open>2 ^ 53\<close> in
  absolute value is one), the leap years of the built-in Gregorian calendar follow the rule
  "divisible by 4, and not by 100 unless by 400" for the years after 1582 and the Julian
  rule "divisible by 4" up to 1582; a year has 366 days when it is a leap year and 365 days
  otherwise, except 1582, which has 355. For a year that is not a float, \<^verbatim>\<open>is_leap\<close> and
  \<^verbatim>\<open>count_days_in_year\<close> raise: \<^verbatim>\<open>OverflowError\<close> when the conversion to a float
  overflows, otherwise \<^verbatim>\<open>TimelyError\<close>, "Year value is not an integer."
\<close>

theorem C3_gregorian_leap_years:
  "is_leap CalGregorian y =
     (if is_float64 y then Inr (if y > 1582 then spec_leap_rule y else 4 dvd y)
      else if float_overflows y then Inl OverflowError
      else Inl (TimelyError ''Year value is not an integer.''))
   \<and> count_days_in_year CalGregorian y =
     (if is_float64 y
      then Inr (if y = 1582 then 355
                else if (if y > 1582 then spec_leap_rule y else 4 dvd y) then 366 else 365)
      else if float_overflows y then Inl OverflowError
      else Inl (TimelyError ''Year value is not an integer.''))"
proof (cases "is_float64 y")
  case True
  then show ?thesis
    by (simp add: is_leap_gregorian count_days_in_year_gregorian greg_leap_def)
next
  case False
  then show ?thesis
    by (simp add: is_leap_gregorian_refused count_days_in_year_gregorian_refused)
qed

theorem C3_gregorian_leap_years_witness:
  "is_leap CalGregorian 1900 = Inr False \<and> count_days_in_year CalGregorian 1900 = Inr 365"
proof -
  have "is_float64 1900" by (intro is_float64_small) simp
  then show ?thesis
    using C3_gregorian_leap_years[of 1900] by (simp add: spec_leap_rule_def)
qed

text \<open>
  C3 as stated fails: 1500 is a leap year of the built-in Gregorian calendar (it is a Julian
  year), against the rule of the specification; 1582 has neither 365 nor 366 days; and the
  year \<open>2 ^ 53 + 1\<close>, which is not a float, has no answer: \<^verbatim>\<open>is_leap\<close> raises.
\<close>

theorem C3_counterexample:
  "is_leap CalGregorian 1500 = Inr True \<and> \<not> spec_leap_rule 1500
   \<and> count_days_in_year CalGregorian 1582 = Inr 355
   \<and> is_leap CalGregorian (2 ^ 53 + 1) = Inl (TimelyError ''Year value is not an integer.'')"
proof -
  have f: "is_float64 1500" "is_float64 1582" by (intro is_float64_small; simp)+
  have a: "is_leap CalGregorian 1500 = Inr True \<and> \<not> spec_leap_rule 1500
      \<and> count_days_in_year CalGregorian 1582 = Inr 355"
    by (simp add: is_leap_gregorian[OF f(1)] count_days_in_year_gregorian[OF f(2)]
        greg_leap_def spec_leap_rule_def)
  have b: "is_leap CalGregorian (2 ^ 53 + 1) = Inl (TimelyError ''Year value is not an integer.'')"
    unfolding is_leap_gregorian_refused[OF not_float_2_53_1(1)]
    using not_float_2_53_1(2) by (rule if_not_P)
  from a b show ?thesis by (intro conjI) blast+
qed

section \<open>Adding days to a valid date\<close>

lemma add_days_year_loop_exit:
  assumes "ith_day_in_cycle cal 1 yr 1 = Inr fd" "count_days_in_year cal yr = Inr diy"
    and "integral < days_in_year" "0 \<le> integral \<or> \<not> flag_under"
  shows "add_days_year_loop cal flag_under yr dy integral days_in_year
           = Some (Inr (yr, dy, integral, diy))"
  by (subst add_days_year_loop.simps) (use assms in \<open>auto simp: Let_def\<close>)

lemma add_days_cycle_loop_exit:
  assumes "ith_day_in_cycle cal cyc yr 1 = Inr fd" "count_days_in_cycle cal cyc yr = Inr dic"
    and "integral < days_in_cycle_count" "0 \<le> integral \<or> \<not> flag_under"
  shows "add_days_cycle_loop cal flag_under yr cyc dy integral days_in_cycle_count
           = Some (Inr (cyc, dy, integral, dic))"
  by (subst add_days_cycle_loop.simps) (use assms in \<open>auto simp: Let_def\<close>)

lemma ith_day_in_cycle_wf:
  assumes "wf_year cal yr" "1 \<le> c" "c \<le> count_cycles_in_year cal yr"
  shows "ith_day_in_cycle cal c yr i = py_get (cycle_days cal yr c) (i - 1)"
  by (simp add: ith_day_in_cycle_def wf_year_cycle(1)[OF assms])

lemma ith_day_in_cycle_first:
  assumes "wf_year cal yr" "1 \<le> c" "c \<le> count_cycles_in_year cal yr"
  shows "ith_day_in_cycle cal c yr 1 = Inr (hd (cycle_days cal yr c))"
  by (simp add: ith_day_in_cycle_wf[OF assms] py_get_0 wf_year_cycle(2)[OF assms])

text \<open>Within the cycle: the day moves by \<open>j\<close> places in the list of days.\<close>

lemma add_days_cycles_within:
  fixes d :: date and k :: nat and j :: int
  defines "ds \<equiv> cycle_days (calendar d) (year (tdata d)) (cycle (tdata d))"
  assumes v: "valid_date d" and w: "wf_year (calendar d) (year (tdata d))"
    and k: "k < length ds" "ds ! k = day (tdata d)"
    and j: "0 \<le> int k + j" "int k + j < int (length ds)"
  shows "add_days_cycles d j = Some (Inr (set_day d (ds ! nat (int k + j))))"
proof -
  from v have c: "1 \<le> cycle (tdata d)"
    "cycle (tdata d) \<le> count_cycles_in_year (calendar d) (year (tdata d))"
    by (simp_all add: valid_date_def)
  note wc = wf_year_cycle[OF w c]
  have idx: "py_index ds (day (tdata d)) = Inr (int k)"
    using py_index_nth[OF wc(3), of k] k by (simp add: ds_def)
  have dn: "day_number_in_cycle d = Inr (int k + 1)"
    using day_number_in_year_wf(1)[OF v w] idx by (simp add: ds_def)
  have cnt: "MultiDate_count_days_in_cycle d = Inr (int (length ds))"
    by (simp add: MultiDate_count_days_in_cycle_def count_days_in_cycle_wf[OF w c] ds_def)
  have cnt': "count_days_in_cycle (calendar d) (cycle (tdata d)) (year (tdata d)) = Inr (int (length ds))"
    by (simp add: count_days_in_cycle_wf[OF w c] ds_def)
  have fd: "ith_day_in_cycle (calendar d) (cycle (tdata d)) (year (tdata d)) 1 = Inr (hd ds)"
    using ith_day_in_cycle_first[OF w c] by (simp add: ds_def)
  have loop: "add_days_cycle_loop (calendar d) False (year (tdata d)) (cycle (tdata d))
                (day (tdata d)) j (int (length ds))
              = Some (Inr (cycle (tdata d), day (tdata d), j, int (length ds)))"
    using j by (intro add_days_cycle_loop_exit[OF fd cnt']) simp_all
  have last: "ith_day_in_cycle (calendar d) (cycle (tdata d)) (year (tdata d)) (int k + 1 + j)
               = Inr (ds ! nat (int k + j))"
    using j by (simp add: ith_day_in_cycle_wf[OF w c] py_get_nth ds_def[symmetric])
  have flags: "\<not> j > int (length ds) - (int k + 1)" "\<not> j < 1 - (int k + 1)"
    using j by simp_all
  have same: "set_day (set_cycle d (cycle (tdata d))) (day (tdata d)) = d"
    by simp
  show ?thesis
    unfolding add_days_cycles_def using j
    by (simp add: cnt dn Let_def MultiDate_ith_day_in_cycle_def fd
        MultiDate_count_days_in_cycle_def cnt' loop day_number_in_cycle_def wc(1) idx
        ds_def[symmetric] last)
qed


text \<open>From the last day of a cycle to the first day of the next cycle of the same year.\<close>

lemma add_days_cycles_next_cycle:
  fixes d :: date and k :: nat
  defines "ds \<equiv> cycle_days (calendar d) (year (tdata d)) (cycle (tdata d))"
    and "ds' \<equiv> cycle_days (calendar d) (year (tdata d)) (cycle (tdata d) + 1)"
  assumes v: "valid_date d" and w: "wf_year (calendar d) (year (tdata d))"
    and k: "Suc k = length ds" "ds ! k = day (tdata d)"
    and n: "cycle (tdata d) < count_cycles_in_year (calendar d) (year (tdata d))"
  shows "add_days_cycles d 1 = Some (Inr (set_day (set_cycle d (cycle (tdata d) + 1)) (hd ds')))"
proof -
  from v have c: "1 \<le> cycle (tdata d)"
    "cycle (tdata d) \<le> count_cycles_in_year (calendar d) (year (tdata d))"
    by (simp_all add: valid_date_def)
  from c n have c': "1 \<le> cycle (tdata d) + 1"
    "cycle (tdata d) + 1 \<le> count_cycles_in_year (calendar d) (year (tdata d))"
    by simp_all
  note wc = wf_year_cycle[OF w c]
  note wc' = wf_year_cycle[OF w c']
  have kl: "k < length ds" using k by simp
  have idx: "py_index ds (day (tdata d)) = Inr (int k)"
    using py_index_nth[OF wc(3), of k] k kl by (simp add: ds_def)
  have dn: "day_number_in_cycle d = Inr (int k + 1)"
    using day_number_in_year_wf(1)[OF v w] idx by (simp add: ds_def)
  have cnt: "count_days_in_cycle (calendar d) (cycle (tdata d)) (year (tdata d)) = Inr (int k + 1)"
    using k by (simp add: count_days_in_cycle_wf[OF w c] ds_def[symmetric])
  have cnt': "count_days_in_cycle (calendar d) (cycle (tdata d) + 1) (year (tdata d))
                = Inr (int (length ds'))"
    by (simp add: count_days_in_cycle_wf[OF w c'] ds'_def)
  have fd': "ith_day_in_cycle (calendar d) (cycle (tdata d) + 1) (year (tdata d)) 1 = Inr (hd ds')"
    using ith_day_in_cycle_first[OF w c'] by (simp add: ds'_def)
  have ne: "ds' \<noteq> []" using wc'(2) by (simp add: ds'_def)
  have loop: "add_days_cycle_loop (calendar d) False (year (tdata d)) (cycle (tdata d) + 1)
                (hd ds') 0 (int (length ds'))
              = Some (Inr (cycle (tdata d) + 1, hd ds', 0, int (length ds')))"
    using ne by (intro add_days_cycle_loop_exit[OF fd' cnt']) simp_all
  have days': "days_in_cycle (calendar d) (cycle (tdata d) + 1) (year (tdata d)) = Inr ds'"
    using wc'(1) by (simp add: ds'_def)
  have dn': "day_number_in_cycle (d\<lparr>tdata := (tdata d)\<lparr>cycle := cycle (tdata d) + 1, day := hd ds'\<rparr>\<rparr>)
               = Inr 1"
    by (simp add: day_number_in_cycle_def days' py_index_hd[OF ne])
  show ?thesis
    unfolding add_days_cycles_def
    by (simp add: MultiDate_count_days_in_cycle_def cnt dn Let_def MultiDate_ith_day_in_cycle_def
        fd' cnt' loop dn')
qed

text \<open>Within the year, \<^verbatim>\<open>add_days\<close> leaves the year alone and moves inside the cycles.\<close>

lemma add_days_within_year:
  fixes d :: date and k :: nat and j :: int
  defines "ds \<equiv> cycle_days (calendar d) (year (tdata d)) (cycle (tdata d))"
    and "n \<equiv> days_before (calendar d) (year (tdata d)) (cycle (tdata d))"
    and "diy \<equiv> days_before (calendar d) (year (tdata d))
                 (count_cycles_in_year (calendar d) (year (tdata d)) + 1)"
  assumes v: "valid_date d" and w: "wf_year (calendar d) (year (tdata d))"
    and k: "k < length ds" "ds ! k = day (tdata d)"
    and j: "- (n + int k) \<le> j" "j \<le> diy - (n + int k + 1)"
  shows "add_days d j = add_days_cycles d j"
proof -
  from v have c: "1 \<le> cycle (tdata d)"
    "cycle (tdata d) \<le> count_cycles_in_year (calendar d) (year (tdata d))"
    by (simp_all add: valid_date_def)
  then have c1: "(1::int) \<le> 1" "1 \<le> count_cycles_in_year (calendar d) (year (tdata d))"
    by simp_all
  note wc = wf_year_cycle[OF w c]
  have idx: "py_index ds (day (tdata d)) = Inr (int k)"
    using py_index_nth[OF wc(3), of k] k by (simp add: ds_def)
  have dny: "day_number_in_year d = Inr (n + int k + 1)"
    using day_number_in_year_wf(2)[OF v w] idx by (simp add: ds_def n_def)
  have cy: "count_days_in_year (calendar d) (year (tdata d)) = Inr diy"
    using count_days_in_year_wf[OF w c1(2)] by (simp add: diy_def)
  have fd: "ith_day_in_cycle (calendar d) 1 (year (tdata d)) 1
              = Inr (hd (cycle_days (calendar d) (year (tdata d)) 1))"
    by (rule ith_day_in_cycle_first[OF w c1])
  have n0: "0 \<le> n" by (simp add: n_def days_before_nonneg)
  have loop: "add_days_year_loop (calendar d) False (year (tdata d)) (day (tdata d)) j diy
              = Some (Inr (year (tdata d), day (tdata d), j, diy))"
    using j n0 by (intro add_days_year_loop_exit[OF fd cy]) simp_all
  show ?thesis
    unfolding add_days_def using j
    by (simp add: MultiDate_count_days_in_year_def cy dny Let_def fd loop)
qed

lemma add_days_zero:
  assumes v: "valid_date d" and w: "wf_year (calendar d) (year (tdata d))"
  shows "add_days d 0 = Some (Inr d)"
proof -
  from v have c: "1 \<le> cycle (tdata d)"
    "cycle (tdata d) \<le> count_cycles_in_year (calendar d) (year (tdata d))"
    by (simp_all add: valid_date_def)
  from v w obtain k where k:
    "k < length (cycle_days (calendar d) (year (tdata d)) (cycle (tdata d)))"
    "cycle_days (calendar d) (year (tdata d)) (cycle (tdata d)) ! k = day (tdata d)"
    by (rule valid_date_index)
  have "days_before (calendar d) (year (tdata d)) (cycle (tdata d))
          + int (length (cycle_days (calendar d) (year (tdata d)) (cycle (tdata d))))
        \<le> days_before (calendar d) (year (tdata d))
             (count_cycles_in_year (calendar d) (year (tdata d)) + 1)"
    using c by (intro days_before_next) simp_all
  then have "add_days d 0 = add_days_cycles d 0"
    using k days_before_nonneg[of "calendar d" "year (tdata d)" "cycle (tdata d)"]
    by (intro add_days_within_year[OF v w k]) simp_all
  also have "\<dots> = Some (Inr (set_day d (day (tdata d))))"
    using add_days_cycles_within[OF v w k, of 0] k by simp
  finally show ?thesis by simp
qed

text \<open>From the last day of a year to the first day of the next year.\<close>

lemma add_days_next_year:
  fixes d :: date and k :: nat
  defines "cal \<equiv> calendar d" and "y \<equiv> year (tdata d)"
  defines "ds \<equiv> cycle_days cal y (cycle (tdata d))"
    and "ds' \<equiv> cycle_days cal (y + 1) 1"
  assumes v: "valid_date d" and w: "wf_year cal y"
    and w': "wf_year cal (y + 1)" and n': "1 \<le> count_cycles_in_year cal (y + 1)"
    and k: "Suc k = length ds" "ds ! k = day (tdata d)"
    and last: "cycle (tdata d) = count_cycles_in_year cal y"
  shows "add_days d 1 = Some (Inr (d\<lparr>tdata := (tdata d)\<lparr>year := y + 1, cycle := 1, day := hd ds'\<rparr>\<rparr>))"
proof -
  let ?d' = "d\<lparr>tdata := (tdata d)\<lparr>year := y + 1, cycle := 1, day := hd ds'\<rparr>\<rparr>"
  from v have c: "1 \<le> cycle (tdata d)" "cycle (tdata d) \<le> count_cycles_in_year cal y"
    by (simp_all add: valid_date_def cal_def y_def)
  then have c1: "(1::int) \<le> 1" "1 \<le> count_cycles_in_year cal y" by simp_all
  note wc = wf_year_cycle[OF w c]
  note wc' = wf_year_cycle[OF w' c1(1) n']
  have kl: "k < length ds" using k by simp
  have idx: "py_index ds (day (tdata d)) = Inr (int k)"
    using py_index_nth[OF wc(3), of k] k kl by (simp add: ds_def)
  have dny: "day_number_in_year d = Inr (days_before cal y (cycle (tdata d)) + int k + 1)"
    using day_number_in_year_wf(2)[OF v, of "int k"] w idx by (simp add: ds_def cal_def y_def)
  have diy: "days_before cal y (count_cycles_in_year cal y + 1)
               = days_before cal y (cycle (tdata d)) + int k + 1"
    using k c by (simp add: last[symmetric] days_before_Suc ds_def[symmetric])
  have cy: "count_days_in_year cal y = Inr (days_before cal y (cycle (tdata d)) + int k + 1)"
    using count_days_in_year_wf[OF w c1(2)] by (simp add: diy)
  have cy': "count_days_in_year cal (y + 1) = Inr (days_before cal (y + 1) (count_cycles_in_year cal (y + 1) + 1))"
    by (rule count_days_in_year_wf[OF w' n'])
  have fd': "ith_day_in_cycle cal 1 (y + 1) 1 = Inr (hd ds')"
    using ith_day_in_cycle_first[OF w' c1(1) n'] by (simp add: ds'_def)
  have ne: "ds' \<noteq> []" using wc'(2) by (simp add: ds'_def)
  have "days_before cal (y + 1) 1 + int (length ds')
          \<le> days_before cal (y + 1) (count_cycles_in_year cal (y + 1) + 1)"
    unfolding ds'_def using n' by (intro days_before_next) simp_all
  moreover have "0 < int (length ds')" using ne by simp
  moreover have "days_before cal (y + 1) 1 = 0" by simp
  ultimately have pos: "0 < days_before cal (y + 1) (count_cycles_in_year cal (y + 1) + 1)"
    by linarith
  have loop: "add_days_year_loop cal False (y + 1) (hd ds') 0
                (days_before cal (y + 1) (count_cycles_in_year cal (y + 1) + 1))
              = Some (Inr (y + 1, hd ds', 0, days_before cal (y + 1) (count_cycles_in_year cal (y + 1) + 1)))"
    using pos by (intro add_days_year_loop_exit[OF fd' cy']) simp_all
  have hd_in: "hd ds' \<in> set ds'" using ne by simp
  have v': "valid_date ?d'"
    using v n' wc'(1,4) hd_in
    by (simp add: valid_date_def cal_def[symmetric] y_def[symmetric] ds'_def[symmetric])
  have w'': "wf_year (calendar ?d') (year (tdata ?d'))"
    using w' by (simp add: cal_def)
  have k0: "0 < length (cycle_days (calendar ?d') (year (tdata ?d')) (cycle (tdata ?d')))"
    "cycle_days (calendar ?d') (year (tdata ?d')) (cycle (tdata ?d')) ! 0 = day (tdata ?d')"
    using ne by (simp_all add: cal_def[symmetric] ds'_def[symmetric] hd_conv_nth)
  have cyc: "add_days_cycles ?d' 0 = Some (Inr ?d')"
    using add_days_cycles_within[OF v' w'' k0, of 0] k0 by simp
  show ?thesis
    unfolding add_days_def
    using days_before_nonneg[of cal y "cycle (tdata d)"]
    by (simp add: MultiDate_count_days_in_year_def cal_def[symmetric] y_def[symmetric] cy dny
        Let_def fd' cy' loop cyc six_update_order)
qed

section \<open>Adding nothing, adding an hour\<close>

lemma threshold_int [simp]:
  "real_of_int s < threshold \<longleftrightarrow> s \<le> 0" "60 - threshold < real_of_int s \<longleftrightarrow> 60 \<le> s"
proof -
  show "real_of_int s < threshold \<longleftrightarrow> s \<le> 0"
  proof
    assume "real_of_int s < threshold"
    then have "real_of_int s < 1" by (simp add: threshold_def)
    then show "s \<le> 0" by linarith
  next
    assume "s \<le> 0"
    then have "real_of_int s \<le> 0" by simp
    then show "real_of_int s < threshold" by (simp add: threshold_def)
  qed
  show "60 - threshold < real_of_int s \<longleftrightarrow> 60 \<le> s"
  proof
    assume "60 - threshold < real_of_int s"
    then have "59 < real_of_int s" by (simp add: threshold_def)
    then show "60 \<le> s" by linarith
  next
    assume "60 \<le> s"
    then have "60 \<le> real_of_int s" by simp
    then show "60 - threshold < real_of_int s" by (simp add: threshold_def)
  qed
qed

lemma add_hours_within:
  assumes "0 \<le> hour (tdata d) + j" "hour (tdata d) + j < 24"
  shows "add_hours d j = Some (Inr (set_hour d (hour (tdata d) + j)))"
  using assms by (simp add: add_hours_def Let_def)

lemma add_minutes_within:
  assumes "0 \<le> minute (tdata d) + j" "minute (tdata d) + j < 60"
  shows "add_minutes d j = Some (Inr (set_minute d (minute (tdata d) + j)))"
  using assms by (simp add: add_minutes_def Let_def)

lemma add_seconds_within:
  assumes "0 \<le> second (tdata d) + j" "second (tdata d) + j < 60"
    and "0 \<le> minute (tdata d)" "minute (tdata d) < 60"
  shows "add_seconds d j = Some (Inr (set_second d (second (tdata d) + j)))"
  using assms add_minutes_within[of d 0]
  by (simp add: add_seconds_def Let_def)

lemma add_cycles_loop_exit:
  assumes "0 \<le> integral" "integral < count_cycles_in_year cal yr"
  shows "add_cycles_loop cal yr integral False
           = Some (yr, integral, False, count_cycles_in_year cal yr)"
  by (subst add_cycles_loop.simps) (use assms in \<open>auto simp: Let_def\<close>)

lemma add_cycles_zero:
  assumes "valid_date d"
  shows "add_cycles d 0 = Some (Inr d)"
proof -
  from assms have c: "1 \<le> cycle (tdata d)"
    "cycle (tdata d) \<le> count_cycles_in_year (calendar d) (year (tdata d))"
    by (simp_all add: valid_date_def)
  have loop: "add_cycles_loop (calendar d) (year (tdata d)) 0 False
                = Some (year (tdata d), 0, False, count_cycles_in_year (calendar d) (year (tdata d)))"
    using c by (intro add_cycles_loop_exit) simp_all
  show ?thesis
    using c by (simp add: add_cycles_def Let_def MultiDate_count_cycles_in_year_def loop)
qed

lemma add_years_zero [simp]: "add_years d 0 = d"
  by (simp add: add_years_def)

lemma valid_date_time:
  assumes "valid_date d"
  shows "0 \<le> hour (tdata d)" "hour (tdata d) < 24" "0 \<le> minute (tdata d)" "minute (tdata d) < 60"
    "0 \<le> second (tdata d)" "second (tdata d) < 60"
  using assms by (simp_all add: valid_date_def)

text \<open>Adding an interval whose years and cycles are zero, to a valid date.\<close>

lemma MultiDate_add_days_only:
  assumes v: "valid_date d"
    and "year dt = 0" "cycle dt = 0" "hour dt = 0" "minute dt = 0" "second dt = 0"
    and a: "add_days d (day dt) = Some (Inr d')"
    and t: "hour (tdata d') = hour (tdata d)" "minute (tdata d') = minute (tdata d)"
      "second (tdata d') = second (tdata d)"
  shows "MultiDate_add d dt = Some (Inr d')"
proof -
  note vt = valid_date_time[OF v]
  have h: "add_hours d' 0 = Some (Inr d')" using add_hours_within[of d' 0] vt t by simp
  have m: "add_minutes d' 0 = Some (Inr d')" using add_minutes_within[of d' 0] vt t by simp
  have s: "add_seconds d' 0 = Some (Inr d')" using add_seconds_within[of d' 0] vt t by simp
  show ?thesis
    using assms(2-6)
    by (simp add: MultiDate_add_def Date_of_times_valid[OF v] add_cycles_zero[OF v] a h m s)
qed

lemma MultiDate_add_zero:
  assumes v: "valid_date d" and w: "wf_year (calendar d) (year (tdata d))"
    and "year dt = 0" "cycle dt = 0" "day dt = 0" "hour dt = 0" "minute dt = 0" "second dt = 0"
  shows "MultiDate_add d dt = Some (Inr d)"
  using assms(3-) by (intro MultiDate_add_days_only[OF v]) (simp_all add: add_days_zero[OF v w])

section \<open>The next day\<close>

lemma one_day_sel [simp]:
  "year one_day = 0" "cycle one_day = 0" "day one_day = 1"
  "hour one_day = 0" "minute one_day = 0" "second one_day = 0"
  by (simp_all add: one_day_def)

lemma valid_date_set_day:
  assumes "valid_date d" "wf_year (calendar d) (year (tdata d))"
    and "x \<in> set (cycle_days (calendar d) (year (tdata d)) (cycle (tdata d)))"
  shows "valid_date (set_day d x)"
proof -
  from assms(1) have c: "1 \<le> cycle (tdata d)"
    "cycle (tdata d) \<le> count_cycles_in_year (calendar d) (year (tdata d))"
    by (simp_all add: valid_date_def)
  note wc = wf_year_cycle[OF assms(2) c]
  show ?thesis using assms(1,3) wc(1,4) by (simp add: valid_date_def)
qed

text \<open>
  One day added to a valid date that is not the last day of its year: the result is a valid
  date of the same year, and its day number in the year is one more.
\<close>

lemma MultiDate_add_one_day_same_year:
  fixes d :: date
  defines "cal \<equiv> calendar d" and "y \<equiv> year (tdata d)"
  assumes v: "valid_date d" and w: "wf_year cal y"
    and dn: "day_number_in_year d = Inr n" and cy: "count_days_in_year cal y = Inr diy"
    and lt: "n < diy"
  shows "\<exists>d'. MultiDate_add d one_day = Some (Inr d') \<and> valid_date d' \<and> calendar d' = cal
           \<and> year (tdata d') = y \<and> hour (tdata d') = hour (tdata d)
           \<and> minute (tdata d') = minute (tdata d) \<and> second (tdata d') = second (tdata d)
           \<and> day_number_in_year d' = Inr (n + 1)"
proof -
  let ?c = "cycle (tdata d)"
  let ?N = "count_cycles_in_year cal y"
  let ?ds = "cycle_days cal y ?c"
  from v have c: "1 \<le> ?c" "?c \<le> ?N"
    by (simp_all add: valid_date_def cal_def y_def)
  then have c1: "1 \<le> ?N" by simp
  note wc = wf_year_cycle[OF w c]
  from v w obtain k where k: "k < length ?ds" "?ds ! k = day (tdata d)"
    and idx: "py_index ?ds (day (tdata d)) = Inr (int k)"
    unfolding cal_def y_def by (rule valid_date_index)
  have n: "n = days_before cal y ?c + int k + 1"
    using day_number_in_year_wf(2)[OF v, of "int k"] w idx dn by (simp add: cal_def y_def)
  have diy: "diy = days_before cal y (?N + 1)"
    using count_days_in_year_wf[OF w c1] cy by simp
  have w0: "wf_year (calendar d) (year (tdata d))" using w by (simp add: cal_def y_def)
  have k0: "k < length (cycle_days (calendar d) (year (tdata d)) (cycle (tdata d)))"
    "cycle_days (calendar d) (year (tdata d)) (cycle (tdata d)) ! k = day (tdata d)"
    using k by (simp_all add: cal_def y_def)
  have b0: "0 \<le> days_before cal y ?c" by (rule days_before_nonneg)
  have within: "add_days d 1 = add_days_cycles d 1"
    using lt b0 by (intro add_days_within_year[OF v w0 k0])
      (simp_all add: n diy cal_def[symmetric] y_def[symmetric])
  show ?thesis
  proof (cases "Suc k < length ?ds")
    case True
    let ?d' = "set_day d (?ds ! Suc k)"
    have "add_days_cycles d 1 = Some (Inr (set_day d (?ds ! nat (int k + 1))))"
      using add_days_cycles_within[OF v w0 k0, of 1] True
      by (simp add: cal_def[symmetric] y_def[symmetric])
    then have a: "add_days d 1 = Some (Inr ?d')"
      using within by (simp add: nat_add_distrib)
    have mem: "?ds ! Suc k \<in> set ?ds" using True by simp
    have v': "valid_date ?d'"
      using valid_date_set_day[OF v w0] mem by (simp add: cal_def y_def)
    have idx': "py_index (cycle_days (calendar ?d') (year (tdata ?d')) (cycle (tdata ?d')))
                  (day (tdata ?d')) = Inr (int (Suc k))"
      using py_index_nth[OF wc(3) True] by (simp add: cal_def y_def)
    have dn': "day_number_in_year ?d' = Inr (n + 1)"
      using day_number_in_year_wf(2)[OF v' _ idx'] w
      by (simp add: cal_def[symmetric] y_def[symmetric] n)
    have "MultiDate_add d one_day = Some (Inr ?d')"
      using a by (intro MultiDate_add_days_only[OF v]) simp_all
    then show ?thesis
      using v' dn' by (intro exI[of _ ?d']) (simp add: cal_def y_def)
  next
    case False
    with k have last: "Suc k = length ?ds" by simp
    have cN: "?c < ?N"
    proof (rule ccontr)
      assume "\<not> ?c < ?N"
      with c have "?c = ?N" by simp
      then have "diy = days_before cal y ?c + int (length ?ds)"
        using c by (simp add: diy days_before_Suc)
      with lt n last show False by simp
    qed
    let ?ds' = "cycle_days cal y (?c + 1)"
    let ?d' = "set_day (set_cycle d (?c + 1)) (hd ?ds')"
    have c': "1 \<le> ?c + 1" "?c + 1 \<le> ?N" using c cN by simp_all
    note wc' = wf_year_cycle[OF w c']
    have k1: "Suc k = length (cycle_days (calendar d) (year (tdata d)) (cycle (tdata d)))"
      using last by (simp add: cal_def y_def)
    have "add_days_cycles d 1 = Some (Inr ?d')"
      using add_days_cycles_next_cycle[OF v w0 k1 k0(2)] cN
      by (simp add: cal_def[symmetric] y_def[symmetric])
    then have a: "add_days d 1 = Some (Inr ?d')" using within by simp
    have mem: "hd ?ds' \<in> set ?ds'" using wc'(2) by simp
    have v': "valid_date ?d'"
      using v c' wc'(1,4) mem by (simp add: valid_date_def cal_def[symmetric] y_def[symmetric])
    have idx': "py_index (cycle_days (calendar ?d') (year (tdata ?d')) (cycle (tdata ?d')))
                  (day (tdata ?d')) = Inr 0"
      using py_index_hd[OF wc'(2)] by (simp add: cal_def y_def)
    have dn': "day_number_in_year ?d' = Inr (n + 1)"
      using day_number_in_year_wf(2)[OF v' _ idx'] w c last
      by (simp add: cal_def[symmetric] y_def[symmetric] n days_before_Suc)
    have "MultiDate_add d one_day = Some (Inr ?d')"
      using a by (intro MultiDate_add_days_only[OF v]) simp_all
    then show ?thesis
      using v' dn' by (intro exI[of _ ?d']) (simp add: cal_def y_def)
  qed
qed

text \<open>One day added to the last day of a year gives the first day of the next year.\<close>

lemma MultiDate_add_one_day_last:
  fixes d :: date
  defines "cal \<equiv> calendar d" and "y \<equiv> year (tdata d)"
  assumes v: "valid_date d" and w: "wf_year cal y"
    and w': "wf_year cal (y + 1)" and n': "1 \<le> count_cycles_in_year cal (y + 1)"
    and dn: "day_number_in_year d = Inr n" and cy: "count_days_in_year cal y = Inr diy"
    and ge: "diy \<le> n"
  shows "MultiDate_add d one_day =
           Some (Inr (d\<lparr>tdata := (tdata d)\<lparr>year := y + 1, cycle := 1,
                                           day := hd (cycle_days cal (y + 1) 1)\<rparr>\<rparr>))"
proof -
  let ?c = "cycle (tdata d)"
  let ?N = "count_cycles_in_year cal y"
  let ?ds = "cycle_days cal y ?c"
  from v have c: "1 \<le> ?c" "?c \<le> ?N"
    by (simp_all add: valid_date_def cal_def y_def)
  then have c1: "1 \<le> ?N" by simp
  note wc = wf_year_cycle[OF w c]
  from v w obtain k where k: "k < length ?ds" "?ds ! k = day (tdata d)"
    and idx: "py_index ?ds (day (tdata d)) = Inr (int k)"
    unfolding cal_def y_def by (rule valid_date_index)
  have n: "n = days_before cal y ?c + int k + 1"
    using day_number_in_year_wf(2)[OF v, of "int k"] w idx dn by (simp add: cal_def y_def)
  have diy: "diy = days_before cal y (?N + 1)"
    using count_days_in_year_wf[OF w c1] cy by simp
  have le1: "days_before cal y ?c + int (length ?ds) \<le> days_before cal y (?N + 1)"
    using c by (intro days_before_next) simp_all
  have last: "Suc k = length ?ds" using le1 ge k n diy by simp
  have cN: "?c = ?N"
  proof (rule ccontr)
    assume "?c \<noteq> ?N"
    with c have lt: "?c + 1 \<le> ?N" "1 \<le> ?c + 1" by simp_all
    have "days_before cal y (?c + 1) + int (length (cycle_days cal y (?c + 1)))
            \<le> days_before cal y (?N + 1)"
      using lt by (intro days_before_next) simp_all
    moreover have "0 < int (length (cycle_days cal y (?c + 1)))"
      using wf_year_cycle(2)[OF w lt(2,1)] by simp
    moreover have "days_before cal y (?c + 1) = days_before cal y ?c + int (length ?ds)"
      using c by (simp add: days_before_Suc)
    moreover have "int k + 1 = int (length ?ds)" using last by simp
    moreover have "days_before cal y (?N + 1) \<le> days_before cal y ?c + int k + 1"
      using ge n diy by simp
    ultimately show False by linarith
  qed
  have a: "add_days d 1 = Some (Inr (d\<lparr>tdata := (tdata d)\<lparr>year := y + 1, cycle := 1,
                                           day := hd (cycle_days cal (y + 1) 1)\<rparr>\<rparr>))"
    using add_days_next_year[OF v] w w' n' last k(2) cN
    by (simp add: cal_def[symmetric] y_def[symmetric])
  show ?thesis
    using a by (intro MultiDate_add_days_only[OF v]) simp_all
qed

section \<open>Comparisons of valid dates\<close>

lemma Calendar_eq_refl [simp]: "Calendar_eq c c"
  by (simp add: Calendar_eq_def)

lemma MultiDate_lt_valid:
  assumes "valid_date other"
  shows "MultiDate_lt self other =
           Inr (calendar_warning self other, lex_less (slots (tdata self)) (slots (tdata other)))"
  by (auto simp: MultiDate_lt_def Date_of_times_valid[OF assms] Let_def slots_def)

lemma MultiDate_gt_valid:
  assumes "valid_date other"
  shows "MultiDate_gt self other =
           Inr (calendar_warning self other, lex_less (slots (tdata other)) (slots (tdata self)))"
  by (auto simp: MultiDate_gt_def Date_of_times_valid[OF assms] Let_def slots_def)

lemma MultiDate_le_valid:
  assumes "valid_date other"
  shows "MultiDate_le self other =
           Inr (calendar_warning self other, \<not> lex_less (slots (tdata other)) (slots (tdata self)))"
  by (auto simp: MultiDate_le_def Date_of_times_valid[OF assms] Let_def slots_def)

lemma MultiDate_ge_valid:
  assumes "valid_date other"
  shows "MultiDate_ge self other =
           Inr (calendar_warning self other, \<not> lex_less (slots (tdata self)) (slots (tdata other)))"
  by (auto simp: MultiDate_ge_def Date_of_times_valid[OF assms] Let_def slots_def)

lemma calendar_warning_same [simp]:
  "calendar self = calendar other \<Longrightarrow> calendar_warning self other = []"
  by (simp add: calendar_warning_def)

section \<open>The constructor on valid rows\<close>

lemma map_rows_all:
  assumes "\<forall>x\<in>set xs. f x = Inr (g x)"
  shows "map_rows f xs = Inr (map g xs)"
  using assms by (induction xs) simp_all

lemma valid_row_stages:
  assumes v: "valid_date (row_date cal r)"
  shows "check_mask_order r = Inr r" "check_negative r = Inr r"
    "fill_cycle cal r = Inr (r, cycle_days cal (year (tdata r)) (cycle (tdata r)))"
    "fill_day (r, cycle_days cal (year (tdata r)) (cycle (tdata r)))
       = Inr (r, cycle_days cal (year (tdata r)) (cycle (tdata r)))"
    "check_cycle cal (r, cycle_days cal (year (tdata r)) (cycle (tdata r)))
       = Inr (r, cycle_days cal (year (tdata r)) (cycle (tdata r)))"
    "check_day (r, cycle_days cal (year (tdata r)) (cycle (tdata r))) = Inr r"
    "fill_hour r = Inr r" "fill_minute r = Inr r" "fill_second r = Inr r"
proof -
  from v obtain ds where ds: "days_in_cycle cal (cycle (tdata r)) (year (tdata r)) = Inr ds"
    "day (tdata r) \<in> set ds"
    by (auto simp: valid_date_def row_date_def split: sum.splits)
  then have cd: "cycle_days cal (year (tdata r)) (cycle (tdata r)) = ds"
    by (simp add: cycle_days_def)
  from ds(2) have ne: "ds \<noteq> []" by auto
  from ds(2) obtain i where i: "py_index ds (day (tdata r)) = Inr i"
    using py_index_mem by blast
  from v have m: "tmask r = unmasked" by (simp add: valid_date_def row_date_def)
  show "check_mask_order r = Inr r"
    by (simp add: check_mask_order_def m unmasked_def)
  show "check_negative r = Inr r"
    using v by (simp add: check_negative_def m unmasked_def valid_date_def row_date_def)
  show "fill_cycle cal r = Inr (r, cycle_days cal (year (tdata r)) (cycle (tdata r)))"
    by (simp add: fill_cycle_def m unmasked_def ds cd)
  show "fill_day (r, cycle_days cal (year (tdata r)) (cycle (tdata r)))
       = Inr (r, cycle_days cal (year (tdata r)) (cycle (tdata r)))"
    by (simp add: fill_day_def m unmasked_def cd py_get_0[OF ne])
  show "check_cycle cal (r, cycle_days cal (year (tdata r)) (cycle (tdata r)))
       = Inr (r, cycle_days cal (year (tdata r)) (cycle (tdata r)))"
    using v by (simp add: check_cycle_def valid_date_def row_date_def)
  show "check_day (r, cycle_days cal (year (tdata r)) (cycle (tdata r))) = Inr r"
    by (simp add: check_day_def cd i)
  show "fill_hour r = Inr r"
    using v by (simp add: fill_hour_def m unmasked_def valid_date_def row_date_def)
  show "fill_minute r = Inr r"
    using v by (simp add: fill_minute_def m unmasked_def valid_date_def row_date_def)
  show "fill_second r = Inr r"
    using v by (simp add: fill_second_def m unmasked_def valid_date_def row_date_def)
qed

lemma MultiDate_init_valid_rows:
  assumes "\<forall>r\<in>set rows. valid_date (row_date cal r)"
  shows "MultiDate_init rows cal = Inr rows"
proof -
  let ?g = "\<lambda>r. (r, cycle_days cal (year (tdata r)) (cycle (tdata r)))"
  have "map_rows check_mask_order rows = Inr (map (\<lambda>r. r) rows)"
    using assms by (intro map_rows_all) (auto simp: valid_row_stages)
  then have 1: "map_rows check_mask_order rows = Inr rows" by simp
  have "map_rows check_negative rows = Inr (map (\<lambda>r. r) rows)"
    using assms by (intro map_rows_all) (auto simp: valid_row_stages)
  then have 2: "map_rows check_negative rows = Inr rows" by simp
  have 3: "map_rows (fill_cycle cal) rows = Inr (map ?g rows)"
    using assms by (intro map_rows_all) (auto simp: valid_row_stages)
  have "map_rows fill_day (map ?g rows) = Inr (map (\<lambda>x. x) (map ?g rows))"
    using assms by (intro map_rows_all) (auto simp: valid_row_stages)
  then have 4: "map_rows fill_day (map ?g rows) = Inr (map ?g rows)" by simp
  have "map_rows (check_cycle cal) (map ?g rows) = Inr (map (\<lambda>x. x) (map ?g rows))"
    using assms by (intro map_rows_all) (auto simp: valid_row_stages)
  then have 5: "map_rows (check_cycle cal) (map ?g rows) = Inr (map ?g rows)" by simp
  have "map_rows check_day (map ?g rows) = Inr (map fst (map ?g rows))"
    using assms by (intro map_rows_all) (auto simp: valid_row_stages)
  then have 6: "map_rows check_day (map ?g rows) = Inr rows" by (simp add: comp_def)
  have "map_rows fill_hour rows = Inr (map (\<lambda>r. r) rows)"
    using assms by (intro map_rows_all) (auto simp: valid_row_stages)
  then have 7: "map_rows fill_hour rows = Inr rows" by simp
  have "map_rows fill_minute rows = Inr (map (\<lambda>r. r) rows)"
    using assms by (intro map_rows_all) (auto simp: valid_row_stages)
  then have 8: "map_rows fill_minute rows = Inr rows" by simp
  have "map_rows fill_second rows = Inr (map (\<lambda>r. r) rows)"
    using assms by (intro map_rows_all) (auto simp: valid_row_stages)
  then have 9: "map_rows fill_second rows = Inr rows" by simp
  show ?thesis
    unfolding MultiDate_init_def by (simp only: 1 2 3 4 5 6 7 8 9 ebind_simps)
qed

lemma row_date_times_of [simp]: "row_date (calendar d) (times_of d) = d"
  by (simp add: row_date_def times_of_def)

section \<open>Periods of valid dates\<close>

lemma Date_of_times_row:
  assumes "valid_date d" "calendar d = cal"
  shows "Date_of_times (times_of d) cal = Inr d"
  using Date_of_times_valid[OF assms(1)] assms(2) by simp

lemma explicit_period_valid:
  assumes v0: "valid_date d0" and v1: "valid_date d1" and c: "calendar d1 = calendar d0"
    and lt: "lex_less (slots (tdata d0)) (slots (tdata d1))"
  shows "explicit_period d0 d1 lo ro =
           Inr \<lparr>initial_times = times_of d0, final_times = times_of d1,
                left_open = lo, right_open = ro, pcalendar = calendar d0\<rparr>"
proof -
  have r1: "row_date (calendar d0) (times_of d1) = d1"
    using row_date_times_of[of d1] c by simp
  have "\<forall>r\<in>set [times_of d0, times_of d1]. valid_date (row_date (calendar d0) r)"
    using v0 v1 r1 by simp
  then have i: "MultiDate_init [times_of d0, times_of d1] (calendar d0)
                  = Inr [times_of d0, times_of d1]"
    by (rule MultiDate_init_valid_rows)
  have ge: "MultiDate_ge d0 d1 = Inr ([], False)"
    using lt c by (simp add: MultiDate_ge_valid[OF v1])
  show ?thesis
    by (simp add: explicit_period_def c Period_def i Date_of_times_row[OF v0]
        Date_of_times_row[OF v1 c] ge)
qed

section \<open>Sampling a year day by day\<close>

text \<open>
  The loop of \<^verbatim>\<open>regular_sample\<close> on the right-open period from the first day of a year to
  the first day of the next, with a step of one day, entered after the date \<open>cur\<close> was
  stacked: it stacks the days of the year after \<open>cur\<close> and stops.
\<close>

lemma regular_sample_loop_year:
  fixes cal :: calendar and y :: int
  defines "fin \<equiv> \<lparr>tdata = \<lparr>year = y + 1, cycle = 1, day = hd (cycle_days cal (y + 1) 1),
                             hour = 0, minute = 0, second = 0\<rparr>,
                   tmask = unmasked, calendar = cal\<rparr>"
  assumes w: "wf_year cal y" and w': "wf_year cal (y + 1)"
    and n': "1 \<le> count_cycles_in_year cal (y + 1)"
    and cy: "count_days_in_year cal y = Inr diy"
    and v: "valid_date cur" "calendar cur = cal" "year (tdata cur) = y"
    and t: "hour (tdata cur) = 0" "minute (tdata cur) = 0" "second (tdata cur) = 0"
    and dn: "day_number_in_year cur = Inr n"
    and m: "m = nat (diy - n)"
  shows "\<exists>rest. obind (MultiDate_add cur one_day)
                  (\<lambda>nxt. regular_sample_loop True fin one_day nxt acc) = Some (Inr (acc @ rest))
           \<and> int (length rest) = int m
           \<and> (\<forall>r\<in>set rest. valid_date \<lparr>tdata = r, tmask = unmasked, calendar = cal\<rparr>)"
  using v t dn m
proof (induction m arbitrary: cur n acc)
  case 0
  then have ge: "diy \<le> n" by simp
  have vf: "valid_date fin"
    using wf_year_cycle[OF w', of 1] n'
    by (simp add: valid_date_def fin_def)
  have mf: "tmask cur = unmasked" using 0(1) by (simp add: valid_date_def)
  have "MultiDate_add cur one_day =
        Some (Inr (cur\<lparr>tdata := (tdata cur)\<lparr>year := y + 1, cycle := 1,
                                          day := hd (cycle_days cal (y + 1) 1)\<rparr>\<rparr>))"
    using MultiDate_add_one_day_last[OF "0"(1), of n diy] w w' n' cy ge 0
    by simp
  moreover have "cur\<lparr>tdata := (tdata cur)\<lparr>year := y + 1, cycle := 1,
                      day := hd (cycle_days cal (y + 1) 1)\<rparr>\<rparr> = fin"
    using 0 mf by (simp add: fin_def)
  ultimately have a: "MultiDate_add cur one_day = Some (Inr fin)" by simp
  have le: "MultiDate_le fin fin = Inr ([], True)"
    by (simp add: MultiDate_le_valid[OF vf] slots_def)
  have eq: "MultiDate_eq fin fin"
    by (simp add: MultiDate_eq_def CollectionTime_eq_def)
  have "regular_sample_loop True fin one_day fin acc = Some (Inr acc)"
    by (subst regular_sample_loop.simps) (simp add: le eq)
  then show ?case using a by simp
next
  case (Suc m)
  then have lt: "n < diy" by simp
  have vf: "valid_date fin"
    using wf_year_cycle[OF w', of 1] n'
    by (simp add: valid_date_def fin_def)
  from MultiDate_add_one_day_same_year[OF Suc.prems(1), of n diy] w cy lt Suc.prems
  obtain d' where d': "MultiDate_add cur one_day = Some (Inr d')" "valid_date d'"
    "calendar d' = cal" "year (tdata d') = y" "hour (tdata d') = 0" "minute (tdata d') = 0"
    "second (tdata d') = 0" "day_number_in_year d' = Inr (n + 1)"
    by auto
  have le: "MultiDate_le d' fin = Inr ([], True)"
    unfolding MultiDate_le_valid[OF vf] using d'(3,4) by (simp add: slots_def fin_def)
  have neq: "\<not> MultiDate_eq d' fin"
    using d'(2,4) by (simp add: MultiDate_eq_def CollectionTime_eq_def times_of_def fin_def
        valid_date_def unmasked_def)
  have m': "m = nat (diy - (n + 1))" using Suc.prems(8) by simp
  from Suc.IH[OF d'(2-8) m', of "acc @ [tdata d']"]
  obtain rest where rest:
    "obind (MultiDate_add d' one_day)
       (\<lambda>nxt. regular_sample_loop True fin one_day nxt (acc @ [tdata d']))
     = Some (Inr ((acc @ [tdata d']) @ rest))"
    "int (length rest) = int m"
    "\<forall>r\<in>set rest. valid_date \<lparr>tdata = r, tmask = unmasked, calendar = cal\<rparr>"
    by blast
  have loop: "regular_sample_loop True fin one_day d' acc
              = obind (MultiDate_add d' one_day)
                  (\<lambda>nxt. regular_sample_loop True fin one_day nxt (acc @ [tdata d']))"
    by (subst regular_sample_loop.simps)
       (simp add: le neq obind_def split: option.splits sum.splits)
  have vd: "valid_date \<lparr>tdata = tdata d', tmask = unmasked, calendar = cal\<rparr>"
  proof -
    have "\<lparr>tdata = tdata d', tmask = unmasked, calendar = cal\<rparr> = d'"
      using d'(2,3) by (simp add: valid_date_def)
    then show ?thesis using d'(2) by simp
  qed
  show ?case
    using d'(1) loop rest vd
    by (intro exI[of _ "tdata d' # rest"]) simp
qed

section \<open>Dates of the built-in Gregorian calendar\<close>

lemma py_index_upto: "i \<le> v \<Longrightarrow> v \<le> j \<Longrightarrow> py_index [i..j] v = Inr (v - i)"
proof (induction "nat (v - i)" arbitrary: i)
  case 0
  then have "v = i" by simp
  then show ?case using 0 by (simp add: upto_rec1)
next
  case (Suc n)
  then have "i < v" by simp
  then have "n = nat (v - (i + 1))" "i + 1 \<le> v" using Suc by simp_all
  from Suc(1)[OF this(1) this(2) Suc(4)] \<open>i < v\<close> Suc(4) show ?case
    by (simp add: upto_rec1)
qed

lemma CollectionTime_init_3:
  assumes "int64 a" "int64 b" "int64 c"
  shows "CollectionTime_init [Some a, Some b, Some c] =
     Inr \<lparr>tdata = \<lparr>year = a, cycle = b, day = c, hour = 0, minute = 0, second = 0\<rparr>,
          tmask = \<lparr>year = False, cycle = False, day = False, hour = True, minute = True,
                   second = True\<rparr>\<rparr>"
  using assms by (simp add: CollectionTime_init_def conversion_to_ma_def eval_nat_numeral)

lemmas init_stage_defs = check_mask_order_def check_negative_def fill_cycle_def fill_day_def
  check_cycle_def check_day_def fill_hour_def fill_minute_def fill_second_def

lemma Date_1582_10_4:
  "Date [Some 1582, Some 10, Some 4] CalGregorian =
     Inr \<lparr>tdata = \<lparr>year = 1582, cycle = 10, day = 4, hour = 0, minute = 0, second = 0\<rparr>,
          tmask = unmasked, calendar = CalGregorian\<rparr>"
  by (simp add: Date_def CollectionTime_init_3 Date_of_times_def MultiDate_init_single
      init_stage_defs Let_def days_in_month_gregorian_eq py_get_def unmasked_def)


lemma obind_assoc: "obind (obind m f) g = obind m (\<lambda>x. obind (f x) g)"
  by (simp add: obind_def split: option.splits sum.splits)

lemma TimeSeries_valid:
  assumes "\<forall>r\<in>set vs. valid_date \<lparr>tdata = r, tmask = unmasked, calendar = cal\<rparr>"
  shows "TimeSeries vs cal = Inr (map (\<lambda>v. \<lparr>tdata = v, tmask = unmasked\<rparr>) vs)"
  unfolding TimeSeries_def
  using assms by (intro MultiDate_init_valid_rows) (auto simp: row_date_def)

text \<open>
  The first day of a year, as the constructor builds it from a time vector that has only
  the year.
\<close>

lemma valid_first_day:
  assumes w: "wf_year cal y" and n: "1 \<le> count_cycles_in_year cal y"
  shows "valid_date \<lparr>tdata = \<lparr>year = y, cycle = 1, day = hd (cycle_days cal y 1),
                              hour = 0, minute = 0, second = 0\<rparr>,
                    tmask = unmasked, calendar = cal\<rparr>"
  using wf_year_cycle[OF w, of 1] n by (simp add: valid_date_def)

lemma Date_year_only:
  assumes w: "wf_year cal y" and n: "1 \<le> count_cycles_in_year cal y" and i: "int64 y"
  shows "Date [Some y] cal =
           Inr \<lparr>tdata = \<lparr>year = y, cycle = 1, day = hd (cycle_days cal y 1),
                          hour = 0, minute = 0, second = 0\<rparr>,
                tmask = unmasked, calendar = cal\<rparr>"
proof -
  have c: "CollectionTime_init [Some y] =
     Inr \<lparr>tdata = \<lparr>year = y, cycle = 0, day = 0, hour = 0, minute = 0, second = 0\<rparr>,
          tmask = \<lparr>year = False, cycle = True, day = True, hour = True, minute = True,
                   second = True\<rparr>\<rparr>"
    using i by (simp add: CollectionTime_init_def conversion_to_ma_def eval_nat_numeral)
  note wc = wf_year_cycle[OF w _ n]
  show ?thesis
    using wc n
    by (simp add: Date_def c Date_of_times_def MultiDate_init_single init_stage_defs Let_def
        py_get_0 py_index_hd unmasked_def)
qed

text \<open>
  Sampling the right-open period from the first day of a year to the first day of the next
  year with a step of one day gives as many dates as the year has days.
\<close>

lemma regular_sample_year:
  fixes cal :: calendar and y :: int
  defines "d0 \<equiv> \<lparr>tdata = \<lparr>year = y, cycle = 1, day = hd (cycle_days cal y 1),
                            hour = 0, minute = 0, second = 0\<rparr>,
                  tmask = unmasked, calendar = cal\<rparr>"
    and "d1 \<equiv> \<lparr>tdata = \<lparr>year = y + 1, cycle = 1, day = hd (cycle_days cal (y + 1) 1),
                            hour = 0, minute = 0, second = 0\<rparr>,
                  tmask = unmasked, calendar = cal\<rparr>"
  assumes w: "wf_year cal y" and w': "wf_year cal (y + 1)"
    and n: "1 \<le> count_cycles_in_year cal y" and n': "1 \<le> count_cycles_in_year cal (y + 1)"
    and cy: "count_days_in_year cal y = Inr diy"
  shows "\<exists>p ts. explicit_period d0 d1 False True = Inr p
           \<and> regular_sample p one_day None = Some (Inr (Some ts))
           \<and> int (length ts) = diy"
proof -
  let ?p = "\<lparr>initial_times = times_of d0, final_times = times_of d1,
             left_open = False, right_open = True, pcalendar = cal\<rparr>"
  have v0: "valid_date d0" unfolding d0_def by (rule valid_first_day[OF w n])
  have v1: "valid_date d1" unfolding d1_def by (rule valid_first_day[OF w' n'])
  have c0: "calendar d0 = cal" "calendar d1 = cal" by (simp_all add: d0_def d1_def)
  have lt: "lex_less (slots (tdata d0)) (slots (tdata d1))"
    by (simp add: slots_def d0_def d1_def)
  have p: "explicit_period d0 d1 False True = Inr ?p"
    using explicit_period_valid[OF v0 v1 _ lt, of False True] c0 by simp
  have i0: "initial_date ?p = Inr d0"
    using Date_of_times_row[OF v0 c0(1)] by (simp add: initial_date_def)
  have f1: "final_date ?p = Inr d1"
    using Date_of_times_row[OF v1 c0(2)] by (simp add: final_date_def)
  have ge: "MultiDate_ge d0 d1 = Inr ([], False)"
    using lt c0 by (simp add: MultiDate_ge_valid[OF v1])
  note wc = wf_year_cycle[OF w _ n]
  have idx0: "py_index (cycle_days (calendar d0) (year (tdata d0)) (cycle (tdata d0)))
                (day (tdata d0)) = Inr 0"
    using py_index_hd[OF wc(2)] by (simp add: d0_def)
  have dn0: "day_number_in_year d0 = Inr 1"
    using day_number_in_year_wf(2)[OF v0 _ idx0] w by (simp add: d0_def)
  have diy: "diy = days_before cal y (count_cycles_in_year cal y + 1)"
    using count_days_in_year_wf[OF w n] cy by simp
  have "days_before cal y 1 + int (length (cycle_days cal y 1)) \<le> diy"
    unfolding diy using n by (intro days_before_next) simp_all
  moreover have "0 < int (length (cycle_days cal y 1))" using wc(2) by simp
  moreover have "days_before cal y 1 = 0" by simp
  ultimately have pos: "1 \<le> diy" by linarith
  have fin: "d1 = \<lparr>tdata = \<lparr>year = y + 1, cycle = 1, day = hd (cycle_days cal (y + 1) 1),
                             hour = 0, minute = 0, second = 0\<rparr>,
                   tmask = unmasked, calendar = cal\<rparr>" by (simp add: d1_def)
  from regular_sample_loop_year[OF w w' n' cy v0 c0(1) _ _ _ _ dn0 refl, of "[tdata d0]"]
  obtain rest where rest:
    "obind (MultiDate_add d0 one_day) (\<lambda>nxt. regular_sample_loop True d1 one_day nxt [tdata d0])
       = Some (Inr ([tdata d0] @ rest))"
    "int (length rest) = int (nat (diy - 1))"
    "\<forall>r\<in>set rest. valid_date \<lparr>tdata = r, tmask = unmasked, calendar = cal\<rparr>"
    unfolding fin[symmetric] by (auto simp: d0_def)
  have vd0: "valid_date \<lparr>tdata = tdata d0, tmask = unmasked, calendar = cal\<rparr>"
    using v0 by (simp add: d0_def)
  have ts: "TimeSeries (tdata d0 # rest) cal
              = Inr (map (\<lambda>v. \<lparr>tdata = v, tmask = unmasked\<rparr>) (tdata d0 # rest))"
    using rest(3) vd0 by (intro TimeSeries_valid) simp
  have "regular_sample ?p one_day None =
          obind (obind (MultiDate_add d0 one_day)
                   (\<lambda>nxt. regular_sample_loop True d1 one_day nxt [tdata d0]))
            (\<lambda>multidate_times. obind (Some (TimeSeries multidate_times cal))
               (\<lambda>ts. Some (Inr (Some ts))))"
    by (simp add: regular_sample_def i0 f1 ge obind_assoc)
  also have "\<dots> = Some (Inr (Some (map (\<lambda>v. \<lparr>tdata = v, tmask = unmasked\<rparr>) (tdata d0 # rest))))"
    by (simp add: rest(1) ts)
  finally have "regular_sample ?p one_day None
      = Some (Inr (Some (map (\<lambda>v. \<lparr>tdata = v, tmask = unmasked\<rparr>) (tdata d0 # rest))))" .
  moreover have "int (length (map (\<lambda>v. \<lparr>tdata = v, tmask = unmasked\<rparr>) (tdata d0 # rest))) = diy"
    using rest(2) pos by simp
  ultimately show ?thesis using p by blast
qed

section \<open>The transition of October 1582\<close>

lemma MultiDate_add_one_day_within_cycle:
  fixes d :: date and k :: nat
  defines "ds \<equiv> cycle_days (calendar d) (year (tdata d)) (cycle (tdata d))"
  assumes v: "valid_date d" and w: "wf_year (calendar d) (year (tdata d))"
    and k: "Suc k < length ds" "ds ! k = day (tdata d)"
  shows "MultiDate_add d one_day = Some (Inr (set_day d (ds ! Suc k)))"
proof -
  let ?c = "cycle (tdata d)"
  let ?N = "count_cycles_in_year (calendar d) (year (tdata d))"
  from v have c: "1 \<le> ?c" "?c \<le> ?N" by (simp_all add: valid_date_def)
  have kl: "k < length ds" using k by simp
  have le1: "days_before (calendar d) (year (tdata d)) ?c + int (length ds)
               \<le> days_before (calendar d) (year (tdata d)) (?N + 1)"
    unfolding ds_def using c by (intro days_before_next) simp_all
  have b0: "0 \<le> days_before (calendar d) (year (tdata d)) ?c" by (rule days_before_nonneg)
  have "add_days d 1 = add_days_cycles d 1"
    using le1 b0 k(1) by (intro add_days_within_year[OF v w kl[unfolded ds_def] k(2)[unfolded ds_def]])
      (simp_all add: ds_def[symmetric])
  also have "\<dots> = Some (Inr (set_day d (ds ! nat (int k + 1))))"
    using add_days_cycles_within[OF v w kl[unfolded ds_def] k(2)[unfolded ds_def], of 1] k(1)
    by (simp add: ds_def[symmetric])
  finally have a: "add_days d 1 = Some (Inr (set_day d (ds ! Suc k)))"
    by (simp add: nat_add_distrib)
  show ?thesis
    using a by (intro MultiDate_add_days_only[OF v]) simp_all
qed

lemma Date_1582_10_15:
  "Date [Some 1582, Some 10, Some 15] CalGregorian =
     Inr \<lparr>tdata = \<lparr>year = 1582, cycle = 10, day = 15, hour = 0, minute = 0, second = 0\<rparr>,
          tmask = unmasked, calendar = CalGregorian\<rparr>"
  by (simp add: Date_def CollectionTime_init_3 Date_of_times_def MultiDate_init_single
      init_stage_defs Let_def days_in_month_gregorian_eq py_get_def unmasked_def)

lemma add_one_day_1582_10_4:
  "MultiDate_add \<lparr>tdata = \<lparr>year = 1582, cycle = 10, day = 4, hour = 0, minute = 0, second = 0\<rparr>,
                   tmask = unmasked, calendar = CalGregorian\<rparr> one_day
   = Some (Inr \<lparr>tdata = \<lparr>year = 1582, cycle = 10, day = 15, hour = 0, minute = 0, second = 0\<rparr>,
                tmask = unmasked, calendar = CalGregorian\<rparr>)"
proof -
  let ?d = "\<lparr>tdata = \<lparr>year = 1582, cycle = 10, day = 4, hour = 0, minute = 0, second = 0\<rparr>,
             tmask = unmasked, calendar = CalGregorian\<rparr>"
  have v: "valid_date ?d"
    by (simp add: valid_date_def days_in_month_gregorian_eq)
  have w: "wf_year (calendar ?d) (year (tdata ?d))" by (simp add: wf_year_gregorian)
  have ds: "cycle_days CalGregorian 1582 10
              = [1, 2, 3, 4, 15, 16, 17, 18, 19, 20, 21, 22, 23, 24, 25, 26, 27, 28, 29, 30, 31]"
    by (simp add: cycle_days_gregorian)
  show ?thesis
    using MultiDate_add_one_day_within_cycle[OF v w, of 3] by (simp add: ds)
qed

text \<open>
  C2. In the built-in Gregorian calendar the days of October 1582 are 1, 2, 3, 4, 15, ..., 31,
  and the date 1582-10-4 plus one day equals the date 1582-10-15.
\<close>

theorem C2_gregorian_transition:
  "days_in_cycle CalGregorian 10 1582 =
     Inr [1, 2, 3, 4, 15, 16, 17, 18, 19, 20, 21, 22, 23, 24, 25, 26, 27, 28, 29, 30, 31]
   \<and> (\<exists>d s e. Date [Some 1582, Some 10, Some 4] CalGregorian = Inr d
         \<and> MultiDate_add d one_day = Some (Inr s)
         \<and> Date [Some 1582, Some 10, Some 15] CalGregorian = Inr e
         \<and> MultiDate_eq s e)"
proof -
  have "days_in_cycle CalGregorian 10 1582 =
     Inr [1, 2, 3, 4, 15, 16, 17, 18, 19, 20, 21, 22, 23, 24, 25, 26, 27, 28, 29, 30, 31]"
    by (simp add: days_in_month_gregorian_eq)
  moreover have "MultiDate_eq
      \<lparr>tdata = \<lparr>year = 1582, cycle = 10, day = 15, hour = 0, minute = 0, second = 0\<rparr>,
        tmask = unmasked, calendar = CalGregorian\<rparr>
      \<lparr>tdata = \<lparr>year = 1582, cycle = 10, day = 15, hour = 0, minute = 0, second = 0\<rparr>,
        tmask = unmasked, calendar = CalGregorian\<rparr>"
    by (simp add: MultiDate_eq_def CollectionTime_eq_def)
  ultimately show ?thesis
    using Date_1582_10_4 Date_1582_10_15 add_one_day_1582_10_4 by blast
qed

theorem C2_gregorian_transition_witness:
  "\<exists>d s. Date [Some 1582, Some 10, Some 4] CalGregorian = Inr d
      \<and> MultiDate_add d one_day = Some (Inr s)"
  using C2_gregorian_transition by blast

section \<open>Sampling hour by hour\<close>

lemma one_hour_sel [simp]:
  "year one_hour = 0" "cycle one_hour = 0" "day one_hour = 0"
  "hour one_hour = 1" "minute one_hour = 0" "second one_hour = 0"
  by (simp_all add: one_hour_def)

lemma valid_date_set_hour:
  assumes "valid_date d" "0 \<le> h" "h < 24"
  shows "valid_date (set_hour d h)"
  using assms by (auto simp: valid_date_def split: sum.splits)

text \<open>Adding one hour before 23h moves the hour slot only.\<close>

lemma MultiDate_add_one_hour:
  assumes v: "valid_date d" and w: "wf_year (calendar d) (year (tdata d))"
    and h: "hour (tdata d) + 1 < 24"
  shows "MultiDate_add d one_hour = Some (Inr (set_hour d (hour (tdata d) + 1)))"
proof -
  note vt = valid_date_time[OF v]
  let ?d' = "set_hour d (hour (tdata d) + 1)"
  have a: "add_hours d 1 = Some (Inr ?d')"
    using add_hours_within[of d 1] vt h by simp
  have m: "add_minutes ?d' 0 = Some (Inr ?d')"
    using add_minutes_within[of ?d' 0] vt by simp
  have s: "add_seconds ?d' 0 = Some (Inr ?d')"
    using add_seconds_within[of ?d' 0] vt by simp
  show ?thesis
    by (simp add: MultiDate_add_def Date_of_times_valid[OF v] add_cycles_zero[OF v]
        add_days_zero[OF v w] a m s)
qed

text \<open>
  The loop of \<^verbatim>\<open>regular_sample\<close> with a step of one hour, at a date of the same day as the
  final date: it stacks the hours up to the final one, which is left out when the period is
  open on the right.
\<close>

lemma regular_sample_loop_hours:
  assumes v: "valid_date d" and w: "wf_year (calendar d) (year (tdata d))"
    and h: "0 \<le> h" "h \<le> hf" "hf < 23"
    and n: "n = nat (hf - h)"
  shows "regular_sample_loop ro (set_hour d hf) one_hour (set_hour d h) acc =
           Some (Inr (acc @ map (\<lambda>i. tdata (set_hour d i)) [h..(if ro then hf - 1 else hf)]))"
  using h n
proof (induction n arbitrary: h acc)
  case 0
  then have e: "h = hf" by simp
  have hf: "0 \<le> hf" "hf < 24" "hf + 1 < 24" using 0 by simp_all
  have vf: "valid_date (set_hour d hf)" by (rule valid_date_set_hour[OF v hf(1,2)])
  have vn: "valid_date (set_hour d (hf + 1))"
    using hf by (intro valid_date_set_hour[OF v]) simp_all
  have le: "MultiDate_le (set_hour d hf) (set_hour d hf) = Inr ([], True)"
    by (simp add: MultiDate_le_valid[OF vf] slots_def)
  have eq: "MultiDate_eq (set_hour d hf) (set_hour d hf)"
    by (simp add: MultiDate_eq_def CollectionTime_eq_def)
  have a: "MultiDate_add (set_hour d hf) one_hour = Some (Inr (set_hour d (hf + 1)))"
    using MultiDate_add_one_hour[OF vf] w hf by simp
  have le': "MultiDate_le (set_hour d (hf + 1)) (set_hour d hf) = Inr ([], False)"
    by (simp add: MultiDate_le_valid[OF vf] slots_def)
  have stop: "regular_sample_loop ro' (set_hour d hf) one_hour (set_hour d (hf + 1)) acc'
                = Some (Inr acc')" for acc' ro'
    by (subst regular_sample_loop.simps) (simp add: le')
  show ?case
    unfolding e
    by (subst regular_sample_loop.simps) (simp add: le eq a stop upto.simps)
next
  case (Suc n)
  then have lt: "h < hf" by simp
  have hb: "0 \<le> h" "h < 24" "h + 1 < 24" "0 \<le> hf" "hf < 24" using Suc.prems by simp_all
  have vf: "valid_date (set_hour d hf)" by (rule valid_date_set_hour[OF v hb(4,5)])
  have vh: "valid_date (set_hour d h)" by (rule valid_date_set_hour[OF v hb(1,2)])
  have le: "MultiDate_le (set_hour d h) (set_hour d hf) = Inr ([], True)"
    using lt by (simp add: MultiDate_le_valid[OF vf] slots_def)
  have m: "tmask d = unmasked" using v by (simp add: valid_date_def)
  have neq: "\<not> MultiDate_eq (set_hour d h) (set_hour d hf)"
    using lt by (simp add: MultiDate_eq_def CollectionTime_eq_def times_of_def m unmasked_def)
  have a: "MultiDate_add (set_hour d h) one_hour = Some (Inr (set_hour d (h + 1)))"
    using MultiDate_add_one_hour[OF vh] w hb by simp
  have n': "n = nat (hf - (h + 1))" using Suc.prems by simp
  have "0 \<le> h + 1" "h + 1 \<le> hf" using hb lt by simp_all
  note IH = Suc.IH[OF this Suc.prems(3) n', of "acc @ [tdata (set_hour d h)]"]
  have up: "[h..(if ro then hf - 1 else hf)] = h # [h + 1..(if ro then hf - 1 else hf)]"
    using lt by (simp add: upto_rec1)
  have step: "regular_sample_loop ro (set_hour d hf) one_hour (set_hour d h) acc =
              regular_sample_loop ro (set_hour d hf) one_hour (set_hour d (h + 1))
                (acc @ [tdata (set_hour d h)])"
    by (subst regular_sample_loop.simps) (simp add: le neq a)
  show ?case
    unfolding step IH up by simp
qed

text \<open>Sampling a period within one day, before 23h, hour by hour.\<close>

lemma regular_sample_hours:
  assumes v: "valid_date d" and w: "wf_year (calendar d) (year (tdata d))"
    and h: "0 \<le> h" "h < hf" "hf < 23"
  shows "explicit_period (set_hour d h) (set_hour d hf) False ro =
           Inr \<lparr>initial_times = times_of (set_hour d h), final_times = times_of (set_hour d hf),
                left_open = False, right_open = ro, pcalendar = calendar d\<rparr>"
    and "regular_sample \<lparr>initial_times = times_of (set_hour d h),
                          final_times = times_of (set_hour d hf),
                          left_open = False, right_open = ro, pcalendar = calendar d\<rparr>
           one_hour None =
         Some (Inr (Some (map (\<lambda>i. \<lparr>tdata = tdata (set_hour d i), tmask = unmasked\<rparr>)
                            [h..(if ro then hf - 1 else hf)])))"
proof -
  let ?p = "\<lparr>initial_times = times_of (set_hour d h), final_times = times_of (set_hour d hf),
             left_open = False, right_open = ro, pcalendar = calendar d\<rparr>"
  have hb: "0 \<le> h" "h < 24" "h + 1 < 24" "0 \<le> hf" "hf < 24" using h by simp_all
  have v0: "valid_date (set_hour d h)" by (rule valid_date_set_hour[OF v hb(1,2)])
  have v1: "valid_date (set_hour d hf)" by (rule valid_date_set_hour[OF v hb(4,5)])
  have lt: "lex_less (slots (tdata (set_hour d h))) (slots (tdata (set_hour d hf)))"
    using h by (simp add: slots_def)
  show "explicit_period (set_hour d h) (set_hour d hf) False ro = Inr ?p"
    using explicit_period_valid[OF v0 v1 _ lt, of False ro] by simp
  have i0: "initial_date ?p = Inr (set_hour d h)"
    using Date_of_times_row[OF v0, of "calendar d"] by (simp add: initial_date_def)
  have f1: "final_date ?p = Inr (set_hour d hf)"
    using Date_of_times_row[OF v1, of "calendar d"] by (simp add: final_date_def)
  have ge: "MultiDate_ge (set_hour d h) (set_hour d hf) = Inr ([], False)"
    using lt by (simp add: MultiDate_ge_valid[OF v1])
  have gt: "MultiDate_gt (set_hour d h) (set_hour d hf) = Inr ([], False)"
    using h by (simp add: MultiDate_gt_valid[OF v1] slots_def)
  have past: "(if ro then MultiDate_ge (set_hour d h) (set_hour d hf)
               else MultiDate_gt (set_hour d h) (set_hour d hf)) = Inr ([], False)"
    by (simp add: ge gt)
  have a: "MultiDate_add (set_hour d h) one_hour = Some (Inr (set_hour d (h + 1)))"
    using MultiDate_add_one_hour[OF v0] w hb by simp
  have "0 \<le> h + 1" "h + 1 \<le> hf" using h by simp_all
  note loop = regular_sample_loop_hours[OF v w this h(3) refl,
      where acc = "[tdata (set_hour d h)]"]
  have up: "[h..(if ro then hf - 1 else hf)] = h # [h + 1..(if ro then hf - 1 else hf)]"
    using h by (simp add: upto_rec1)
  have vs: "\<forall>r\<in>set (map (\<lambda>i. tdata (set_hour d i)) [h..(if ro then hf - 1 else hf)]).
              valid_date \<lparr>tdata = r, tmask = unmasked, calendar = calendar d\<rparr>"
  proof
    fix r assume "r \<in> set (map (\<lambda>i. tdata (set_hour d i)) [h..(if ro then hf - 1 else hf)])"
    then obtain i where i: "r = tdata (set_hour d i)" "h \<le> i" "i \<le> hf"
      by (auto split: if_splits)
    have "valid_date (set_hour d i)"
      using i h by (intro valid_date_set_hour[OF v]) simp_all
    moreover have "\<lparr>tdata = r, tmask = unmasked, calendar = calendar d\<rparr> = set_hour d i"
      using v i(1) by (simp add: valid_date_def)
    ultimately show "valid_date \<lparr>tdata = r, tmask = unmasked, calendar = calendar d\<rparr>" by simp
  qed
  note ts = TimeSeries_valid[OF vs]
  have L: "regular_sample_loop ro (set_hour d hf) one_hour (set_hour d (h + 1))
             [tdata (set_hour d h)]
           = Some (Inr (map (\<lambda>i. tdata (set_hour d i)) [h..(if ro then hf - 1 else hf)]))"
    unfolding loop up by simp
  have "regular_sample ?p one_hour None =
          obind (regular_sample_loop ro (set_hour d hf) one_hour (set_hour d (h + 1))
                   [tdata (set_hour d h)])
            (\<lambda>multidate_times. obind (Some (TimeSeries multidate_times (calendar d)))
               (\<lambda>ts. Some (Inr (Some ts))))"
    by (simp add: regular_sample_def i0 f1 past a split del: if_split)
  also have "\<dots> = Some (Inr (Some (map (\<lambda>v. \<lparr>tdata = v, tmask = unmasked\<rparr>)
                 (map (\<lambda>i. tdata (set_hour d i)) [h..(if ro then hf - 1 else hf)]))))"
    by (simp only: L ts obind_simps)
  finally show "regular_sample ?p one_hour None =
         Some (Inr (Some (map (\<lambda>i. \<lparr>tdata = tdata (set_hour d i), tmask = unmasked\<rparr>)
                            [h..(if ro then hf - 1 else hf)])))"
    by (simp add: comp_def)
qed

section \<open>Sampling a year of any calendar\<close>

text \<open>
  The right-open period from the first day of the year \<open>y\<close> to the first day of the next
  year, both built by the constructor from a time vector that has only the year, and the
  number of dates of its daily sample.
\<close>

lemma regular_sample_year_dates:
  fixes cal :: calendar and y :: int
  defines "d0 \<equiv> \<lparr>tdata = \<lparr>year = y, cycle = 1, day = hd (cycle_days cal y 1),
                            hour = 0, minute = 0, second = 0\<rparr>,
                  tmask = unmasked, calendar = cal\<rparr>"
    and "d1 \<equiv> \<lparr>tdata = \<lparr>year = y + 1, cycle = 1, day = hd (cycle_days cal (y + 1) 1),
                            hour = 0, minute = 0, second = 0\<rparr>,
                  tmask = unmasked, calendar = cal\<rparr>"
  assumes w: "wf_year cal y" and w': "wf_year cal (y + 1)"
    and n: "1 \<le> count_cycles_in_year cal y" and n': "1 \<le> count_cycles_in_year cal (y + 1)"
    and i: "int64 y" and i': "int64 (y + 1)"
  shows "\<exists>ts. Date [Some y] cal = Inr d0
           \<and> Date [Some (y + 1)] cal = Inr d1
           \<and> explicit_period d0 d1 False True =
                 Inr \<lparr>initial_times = times_of d0, final_times = times_of d1,
                      left_open = False, right_open = True, pcalendar = cal\<rparr>
           \<and> regular_sample \<lparr>initial_times = times_of d0, final_times = times_of d1,
                                left_open = False, right_open = True, pcalendar = cal\<rparr>
                 one_day None = Some (Inr (Some ts))
           \<and> count_days_in_year cal y = Inr (int (length ts))"
proof -
  have e0: "Date [Some y] cal = Inr d0"
    unfolding d0_def by (rule Date_year_only[OF w n i])
  have e1: "Date [Some (y + 1)] cal = Inr d1"
    unfolding d1_def by (rule Date_year_only[OF w' n' i'])
  have v0: "valid_date d0" unfolding d0_def by (rule valid_first_day[OF w n])
  have v1: "valid_date d1" unfolding d1_def by (rule valid_first_day[OF w' n'])
  have lt: "lex_less (slots (tdata d0)) (slots (tdata d1))"
    by (simp add: slots_def d0_def d1_def)
  have c: "calendar d1 = calendar d0" "calendar d0 = cal" by (simp_all add: d0_def d1_def)
  have p: "explicit_period d0 d1 False True =
             Inr \<lparr>initial_times = times_of d0, final_times = times_of d1,
                  left_open = False, right_open = True, pcalendar = cal\<rparr>"
    using explicit_period_valid[OF v0 v1 c(1) lt, of False True] c(2) by simp
  from count_days_in_year_wf[OF w n] obtain diy where cy: "count_days_in_year cal y = Inr diy"
    by blast
  from regular_sample_year[OF w w' n n' cy]
  obtain p' ts where s: "explicit_period d0 d1 False True = Inr p'"
    "regular_sample p' one_day None = Some (Inr (Some ts))" "int (length ts) = diy"
    unfolding d0_def d1_def by blast
  from s(1) p have "p' = \<lparr>initial_times = times_of d0, final_times = times_of d1,
                  left_open = False, right_open = True, pcalendar = cal\<rparr>" by simp
  with s e0 e1 p cy show ?thesis by auto
qed

section \<open>The built-in calendars\<close>

text \<open>
  A calendar with the twelve months whose day table, in the year \<open>y\<close>, is the usual one
  with or without a 29th of February.
\<close>

lemma month_calendar:
  assumes yc: "year_cycles cal = months_of_gregorian_calendar"
    and dc: "\<And>m. 1 \<le> m \<Longrightarrow> m \<le> 12 \<Longrightarrow> days_in_cycle cal m y = Inr [1..month_last lp m]"
  shows "count_cycles_in_year cal y = 12"
    and "wf_year cal y"
    and "count_days_in_year cal y = Inr (if lp then 366 else 365)"
    and "hd (cycle_days cal y 1) = 1"
    and "fn_is_leap cal = Some is_leap_feb29 \<Longrightarrow> is_leap cal y = Inr lp"
proof -
  show n: "count_cycles_in_year cal y = 12"
    by (simp add: count_cycles_in_year_def yc months_of_gregorian_calendar_def)
  have wc: "wf_cycle cal y m" if "1 \<le> m" "m \<le> 12" for m
    using month_last_pos[OF that, of lp] by (simp add: wf_cycle_def dc[OF that] list_all_iff)
  show w: "wf_year cal y"
    by (simp add: wf_year_def n list_all_iff wc)
  have l: "int (length (cycle_days cal y m)) = month_last lp m" if "1 \<le> m" "m \<le> 12" for m
    using month_last_pos[OF that, of lp] by (simp add: cycle_days_def dc[OF that])
  have "days_before cal y 13 = (if lp then 366 else 365)"
    by (simp add: days_before_def upto_1_12 l month_last_def)
  then show "count_days_in_year cal y = Inr (if lp then 366 else 365)"
    using count_days_in_year_wf[OF w] by (simp add: n)
  show "hd (cycle_days cal y 1) = 1"
    using month_last_pos[of 1 lp] by (simp add: cycle_days_def dc upto_rec1)
  show "is_leap cal y = Inr lp" if "fn_is_leap cal = Some is_leap_feb29"
    by (simp add: is_leap_def that is_leap_feb29_def dc month_last_def py_get_last upto_rec2)
qed

lemma Cal365_sel [simp]:
  "year_cycles Cal365 = months_of_gregorian_calendar"
  "days_in_cycle Cal365 = days_in_month_365"
  "fn_is_leap Cal365 = Some is_leap_feb29"
  "cal_alias Cal365 = ''noleap''"
  by (simp_all add: Cal365_def)

lemma CalJulian_sel [simp]:
  "year_cycles CalJulian = months_of_gregorian_calendar"
  "days_in_cycle CalJulian = days_in_month_julian"
  "fn_is_leap CalJulian = Some is_leap_feb29"
  "cal_alias CalJulian = ''julian''"
  by (simp_all add: CalJulian_def)

lemma CalProleptic_sel [simp]:
  "year_cycles CalProleptic = months_of_gregorian_calendar"
  "days_in_cycle CalProleptic = days_in_month_proleptic_gregorian"
  "fn_is_leap CalProleptic = Some is_leap_feb29"
  "cal_alias CalProleptic = ''proleptic_gregorian''"
  by (simp_all add: CalProleptic_def)

lemma Cal360_sel [simp]:
  "year_cycles Cal360 = months_of_gregorian_calendar"
  "days_in_cycle Cal360 = days_in_month_360"
  "fn_is_leap Cal360 = Some is_leap_feb29"
  "cal_alias Cal360 = ''360_day''"
  by (simp_all add: Cal360_def)

lemma Cal365NoMonths_sel [simp]:
  "year_cycles Cal365NoMonths = year_cycle"
  "days_in_cycle Cal365NoMonths = days_in_year_365"
  "fn_is_leap Cal365NoMonths = Some is_leap_feb29"
  "cal_alias Cal365NoMonths = ''365_days_no_months''"
  by (simp_all add: Cal365NoMonths_def)

lemma Cal365_year:
  shows "count_cycles_in_year Cal365 y = 12" and "wf_year Cal365 y"
    and "count_days_in_year Cal365 y = Inr 365" and "hd (cycle_days Cal365 y 1) = 1"
    and "is_leap Cal365 y = Inr False"
  using month_calendar[of Cal365 y False] by (simp_all add: days_in_month_365_eq)

lemma CalJulian_year:
  assumes "is_float64 y"
  shows "count_cycles_in_year CalJulian y = 12" and "wf_year CalJulian y"
    and "count_days_in_year CalJulian y = Inr (if 4 dvd y then 366 else 365)"
    and "hd (cycle_days CalJulian y 1) = 1"
    and "is_leap CalJulian y = Inr (4 dvd y)"
  using month_calendar[of CalJulian y "4 dvd y"] assms
  by (simp_all add: days_in_month_julian_eq)

lemma CalProleptic_year:
  assumes "is_float64 y"
  shows "count_cycles_in_year CalProleptic y = 12" and "wf_year CalProleptic y"
    and "count_days_in_year CalProleptic y = Inr (if spec_leap_rule y then 366 else 365)"
    and "hd (cycle_days CalProleptic y 1) = 1"
    and "is_leap CalProleptic y = Inr (spec_leap_rule y)"
  using month_calendar[of CalProleptic y "spec_leap_rule y"] assms
  by (simp_all add: days_in_month_proleptic_gregorian_eq)

lemma greg_last_1 [simp]: "greg_last 1 y = 31"
  by (simp add: greg_last_def month_last_def)

lemma CalGregorian_year:
  assumes "is_float64 y"
  shows "count_cycles_in_year CalGregorian y = 12" and "wf_year CalGregorian y"
    and "count_days_in_year CalGregorian y =
           Inr (if y = 1582 then 355 else if greg_leap y then 366 else 365)"
    and "hd (cycle_days CalGregorian y 1) = 1"
    and "is_leap CalGregorian y = Inr (greg_leap y)"
  using assms
  by (simp_all add: wf_year_gregorian count_days_in_year_gregorian is_leap_gregorian
      cycle_days_gregorian upto_rec1)

text \<open>The calendar of twelve months of 30 days, and the calendar of 365 days without months.\<close>

lemma Cal360_year:
  shows "count_cycles_in_year Cal360 y = 12" and "wf_year Cal360 y"
    and "count_days_in_year Cal360 y = Inr 360" and "hd (cycle_days Cal360 y 1) = 1"
    and "is_leap Cal360 y = Inr False"
proof -
  show n: "count_cycles_in_year Cal360 y = 12"
    by (simp add: count_cycles_in_year_def months_of_gregorian_calendar_def)
  show w: "wf_year Cal360 y"
    by (simp add: wf_year_def n list_all_iff wf_cycle_def days_in_month_360_def)
  have "days_before Cal360 y 13 = 360"
    by (simp add: days_before_def upto_1_12 cycle_days_def days_in_month_360_def)
  then show "count_days_in_year Cal360 y = Inr 360"
    using count_days_in_year_wf[OF w] by (simp add: n)
  show "hd (cycle_days Cal360 y 1) = 1"
    by (simp add: cycle_days_def days_in_month_360_def upto_rec1)
  show "is_leap Cal360 y = Inr False"
    by (simp add: is_leap_def is_leap_feb29_def days_in_month_360_def py_get_last upto_rec2)
qed

lemma Cal365NoMonths_year:
  shows "count_cycles_in_year Cal365NoMonths y = 1" and "wf_year Cal365NoMonths y"
    and "count_days_in_year Cal365NoMonths y = Inr 365"
    and "hd (cycle_days Cal365NoMonths y 1) = 1"
    and "is_leap Cal365NoMonths y = Inr False"
proof -
  show n: "count_cycles_in_year Cal365NoMonths y = 1"
    by (simp add: count_cycles_in_year_def year_cycle_def)
  show w: "wf_year Cal365NoMonths y"
    by (simp add: wf_year_def n list_all_iff wf_cycle_def days_in_year_365_def)
  have "days_before Cal365NoMonths y 2 = 365"
    by (simp add: days_before_def cycle_days_def days_in_year_365_def)
  then show "count_days_in_year Cal365NoMonths y = Inr 365"
    using count_days_in_year_wf[OF w] by (simp add: n)
  show "hd (cycle_days Cal365NoMonths y 1) = 1"
    by (simp add: cycle_days_def days_in_year_365_def upto_rec1)
  show "is_leap Cal365NoMonths y = Inr False"
    by (simp add: is_leap_def is_leap_feb29_def days_in_year_365_def py_get_last upto_rec2)
qed

text \<open>
  The built-in calendars whose years have 365 days unless they are leap years, the year
  1582 of the Gregorian calendar apart.
\<close>

lemma builtin_wf_year:
  assumes "cal \<in> {CalGregorian, CalProleptic, CalJulian, Cal365, Cal365NoMonths}"
    and "is_float64 y"
  shows "wf_year cal y" and "1 \<le> count_cycles_in_year cal y"
  using assms CalGregorian_year(1,2)[of y] CalProleptic_year(1,2)[of y] CalJulian_year(1,2)[of y]
    Cal365_year(1,2)[of y] Cal365NoMonths_year(1,2)[of y]
  by auto

lemma builtin_365:
  assumes "cal \<in> {CalGregorian, CalProleptic, CalJulian, Cal365, Cal365NoMonths}"
    and "is_float64 y" and "is_leap cal y = Inr False"
    and "\<not> (cal = CalGregorian \<and> y = 1582)"
  shows "count_days_in_year cal y = Inr 365"
  using assms CalGregorian_year(3,5)[of y] CalProleptic_year(3,5)[of y] CalJulian_year(3,5)[of y]
    Cal365_year(3)[of y] Cal365NoMonths_year(3)[of y]
  by auto

section \<open>The samples of the specification\<close>

lemma Date_gregorian_hour:
  assumes "0 \<le> h" "h < 24"
  shows "Date [Some 1979, Some 1, Some 1, Some h] CalGregorian =
     Inr \<lparr>tdata = \<lparr>year = 1979, cycle = 1, day = 1, hour = h, minute = 0, second = 0\<rparr>,
          tmask = unmasked, calendar = CalGregorian\<rparr>"
proof -
  have c: "CollectionTime_init [Some 1979, Some 1, Some 1, Some h] =
     Inr \<lparr>tdata = \<lparr>year = 1979, cycle = 1, day = 1, hour = h, minute = 0, second = 0\<rparr>,
          tmask = \<lparr>year = False, cycle = False, day = False, hour = False, minute = True,
                   second = True\<rparr>\<rparr>"
    using assms by (simp add: CollectionTime_init_def conversion_to_ma_def eval_nat_numeral)
  show ?thesis
    using assms
    by (simp add: Date_def c Date_of_times_def MultiDate_init_single
        init_stage_defs Let_def days_in_month_gregorian_eq py_get_def unmasked_def
        py_index_upto)
qed

lemma valid_1979_01_01:
  "valid_date \<lparr>tdata = \<lparr>year = 1979, cycle = 1, day = 1, hour = 0, minute = 0, second = 0\<rparr>,
               tmask = unmasked, calendar = CalGregorian\<rparr>"
  by (simp add: valid_date_def days_in_month_gregorian_eq)

text \<open>The two hourly samples of the period from 1979-01-01 00h to 1979-01-01 06h.\<close>

lemma regular_sample_1979:
  fixes ro :: bool
  defines "d \<equiv> \<lparr>tdata = \<lparr>year = 1979, cycle = 1, day = 1, hour = 0, minute = 0, second = 0\<rparr>,
                 tmask = unmasked, calendar = CalGregorian\<rparr>"
  shows "\<exists>d0 d1 p. Date [Some 1979, Some 1, Some 1, Some 0] CalGregorian = Inr d0
       \<and> Date [Some 1979, Some 1, Some 1, Some 6] CalGregorian = Inr d1
       \<and> explicit_period d0 d1 False ro = Inr p
       \<and> regular_sample p one_hour None =
           Some (Inr (Some (map (\<lambda>h. \<lparr>tdata = \<lparr>year = 1979, cycle = 1, day = 1, hour = h,
                                                  minute = 0, second = 0\<rparr>, tmask = unmasked\<rparr>)
                              [0..(if ro then 5 else 6)])))"
proof -
  have v: "valid_date d" unfolding d_def by (rule valid_1979_01_01)
  have w: "wf_year (calendar d) (year (tdata d))" by (simp add: wf_year_gregorian d_def)
  have d0: "Date [Some 1979, Some 1, Some 1, Some 0] CalGregorian = Inr (set_hour d 0)"
    by (simp add: Date_gregorian_hour d_def)
  have d1: "Date [Some 1979, Some 1, Some 1, Some 6] CalGregorian = Inr (set_hour d 6)"
    by (simp add: Date_gregorian_hour d_def)
  note s = regular_sample_hours[OF v w, of 0 6 ro]
  have "regular_sample \<lparr>initial_times = times_of (set_hour d 0),
                            final_times = times_of (set_hour d 6),
                            left_open = False, right_open = ro, pcalendar = calendar d\<rparr>
             one_hour None =
           Some (Inr (Some (map (\<lambda>h. \<lparr>tdata = \<lparr>year = 1979, cycle = 1, day = 1, hour = h,
                                                  minute = 0, second = 0\<rparr>, tmask = unmasked\<rparr>)
                              [0..(if ro then 5 else 6)])))"
    using s(2) by (simp add: d_def)
  moreover have "explicit_period (set_hour d 0) (set_hour d 6) False ro =
        Inr \<lparr>initial_times = times_of (set_hour d 0),
               final_times = times_of (set_hour d 6), left_open = False,
               right_open = ro, pcalendar = calendar d\<rparr>"
    by (rule s(1)) simp_all
  ultimately show ?thesis using d0 d1 by blast
qed




section \<open>Order comparisons\<close>

lemma Date_gregorian_2001:
  "Date [Some 2001] CalGregorian =
     Inr \<lparr>tdata = \<lparr>year = 2001, cycle = 1, day = 1, hour = 0, minute = 0, second = 0\<rparr>,
          tmask = unmasked, calendar = CalGregorian\<rparr>"
  using Date_year_only[OF wf_year_gregorian, of 2001] by (simp add: CalGregorian_year(4))

lemma CollectionTime_init_2:
  assumes "int64 a" "int64 b"
  shows "CollectionTime_init [Some a, Some b] =
     Inr \<lparr>tdata = \<lparr>year = a, cycle = b, day = 0, hour = 0, minute = 0, second = 0\<rparr>,
          tmask = \<lparr>year = False, cycle = False, day = True, hour = True, minute = True,
                   second = True\<rparr>\<rparr>"
  using assms by (simp add: CollectionTime_init_def conversion_to_ma_def eval_nat_numeral)

lemma greg_last_6 [simp]: "greg_last 6 y = 30"
  by (simp add: greg_last_def month_last_def eval_nat_numeral)

lemma Date_gregorian_2001_6:
  "Date [Some 2001, Some 6] CalGregorian =
     Inr \<lparr>tdata = \<lparr>year = 2001, cycle = 6, day = 1, hour = 0, minute = 0, second = 0\<rparr>,
          tmask = unmasked, calendar = CalGregorian\<rparr>"
  by (simp add: Date_def CollectionTime_init_2 Date_of_times_def MultiDate_init_single
      init_stage_defs Let_def days_in_month_gregorian_eq py_get_def unmasked_def
      py_index_upto upto_rec1[of 1 30])

lemma Date_gregorian_2001_1_1:
  "Date [Some 2001, Some 1, Some 1] CalGregorian =
     Inr \<lparr>tdata = \<lparr>year = 2001, cycle = 1, day = 1, hour = 0, minute = 0, second = 0\<rparr>,
          tmask = unmasked, calendar = CalGregorian\<rparr>"
  by (simp add: Date_def CollectionTime_init_3 Date_of_times_def MultiDate_init_single
      init_stage_defs Let_def days_in_month_gregorian_eq py_get_def unmasked_def
      py_index_upto)

lemma Date_gregorian_2001_6_1:
  "Date [Some 2001, Some 6, Some 1] CalGregorian =
     Inr \<lparr>tdata = \<lparr>year = 2001, cycle = 6, day = 1, hour = 0, minute = 0, second = 0\<rparr>,
          tmask = unmasked, calendar = CalGregorian\<rparr>"
  by (simp add: Date_def CollectionTime_init_3 Date_of_times_def MultiDate_init_single
      init_stage_defs Let_def days_in_month_gregorian_eq py_get_def unmasked_def
      py_index_upto)

lemma count_cycles_365 [simp]: "count_cycles_in_year Cal365 y = 12"
  by (simp add: count_cycles_in_year_def months_of_gregorian_calendar_def)

lemma days_in_month_365_6 [simp]: "days_in_month_365 6 y = Inr [1..30]"
  by (simp add: days_in_month_365_eq month_last_def eval_nat_numeral)

lemma Date_noleap_2001_6_1:
  "Date [Some 2001, Some 6, Some 1] Cal365 =
     Inr \<lparr>tdata = \<lparr>year = 2001, cycle = 6, day = 1, hour = 0, minute = 0, second = 0\<rparr>,
          tmask = unmasked, calendar = Cal365\<rparr>"
  by (simp add: Date_def CollectionTime_init_3 Date_of_times_def MultiDate_init_single
      init_stage_defs Let_def py_get_def unmasked_def py_index_upto)

lemma valid_gregorian_2001_1_1:
  "valid_date \<lparr>tdata = \<lparr>year = 2001, cycle = 1, day = 1, hour = 0, minute = 0, second = 0\<rparr>,
               tmask = unmasked, calendar = CalGregorian\<rparr>"
  by (simp add: valid_date_def days_in_month_gregorian_eq)

lemma valid_gregorian_2001_6_1:
  "valid_date \<lparr>tdata = \<lparr>year = 2001, cycle = 6, day = 1, hour = 0, minute = 0, second = 0\<rparr>,
               tmask = unmasked, calendar = CalGregorian\<rparr>"
  by (simp add: valid_date_def days_in_month_gregorian_eq)

lemma valid_noleap_2001_6_1:
  "valid_date \<lparr>tdata = \<lparr>year = 2001, cycle = 6, day = 1, hour = 0, minute = 0, second = 0\<rparr>,
               tmask = unmasked, calendar = Cal365\<rparr>"
  by (simp add: valid_date_def)

lemma calendar_warning_different:
  "cal_alias (calendar self) \<noteq> cal_alias (calendar other) \<Longrightarrow>
     calendar_warning self other =
       [''__gt__ using different calendars, you better know what you are doing...'']"
  by (simp add: calendar_warning_def Calendar_eq_def)

lemma calendar_warning_alias:
  "cal_alias (calendar self) = cal_alias (calendar other) \<Longrightarrow> calendar_warning self other = []"
  by (simp add: calendar_warning_def Calendar_eq_def)







end
